theory Spec2Isabelle
  imports Main "HOL-Library.Sublist"
begin

section \<open>The host language's string and pattern primitives\<close>

text \<open>
  The interpreter in \<^verbatim>\<open>src/markov.js\<close> is written on three primitives of its host
  language: \<^verbatim>\<open>RegExp.prototype.exec\<close> (used by \<^verbatim>\<open>Statement.compile\<close>),
  \<^verbatim>\<open>String.prototype.search\<close> and \<^verbatim>\<open>String.prototype.replace\<close> (used by
  \<^verbatim>\<open>Runner.prototype.step\<close> and by \<^verbatim>\<open>setFrom\<close>/\<^verbatim>\<open>setTo\<close>). A string is a list of code
  units; the code units modelled are those below 256, so a \<^typ>\<open>char\<close> is one code unit.
  The repository holds an older copy of the file as well, whose statements have no
  empty-word marker; its \<^verbatim>\<open>Algorithm\<close> and \<^verbatim>\<open>Runner\<close> are the ones modelled here.
\<close>

subsection \<open>Character classes\<close>

definition is_space :: "char \<Rightarrow> bool" where
  \<comment> \<open>the class \<^verbatim>\<open>\s\<close>: white space and line terminators (tab, LF, VT, FF, CR, space, NBSP)\<close>
  "is_space c \<longleftrightarrow>
     c = CHR 0x09 \<or> c = CHR 0x0A \<or> c = CHR 0x0B \<or> c = CHR 0x0C \<or> c = CHR 0x0D \<or>
     c = CHR 0x20 \<or> c = CHR 0xA0"

definition is_dot :: "char \<Rightarrow> bool" where
  \<comment> \<open>the atom \<^verbatim>\<open>.\<close> of a pattern: every code unit but a line terminator\<close>
  "is_dot c \<longleftrightarrow> c \<noteq> CHR 0x0A \<and> c \<noteq> CHR 0x0D"

definition is_word :: "char \<Rightarrow> bool" where
  \<comment> \<open>the class \<^verbatim>\<open>[^\s!\.]\<close> of \<^verbatim>\<open>Statement.REGEX\<close>\<close>
  "is_word c \<longleftrightarrow> \<not> is_space c \<and> c \<noteq> CHR ''!'' \<and> c \<noteq> CHR ''.''"

definition is_bang :: "char \<Rightarrow> bool" where
  "is_bang c \<longleftrightarrow> c = CHR ''!''"

definition is_period :: "char \<Rightarrow> bool" where
  "is_period c \<longleftrightarrow> c = CHR ''.''"

definition is_shaft :: "char \<Rightarrow> bool" where
  \<comment> \<open>the class \<^verbatim>\<open>[=-]\<close>\<close>
  "is_shaft c \<longleftrightarrow> c = CHR ''='' \<or> c = CHR ''-''"

definition is_head :: "char \<Rightarrow> bool" where
  "is_head c \<longleftrightarrow> c = CHR ''>''"

subsection \<open>Patterns and the backtracking matcher\<close>

text \<open>
  A pattern is matched as the language standard prescribes: by backtracking, the
  alternatives tried in a fixed order. A matcher state is the end index of the match so
  far, the input still unread, and the captures. The matcher of a pattern maps a state to
  the list of all states it can end in, in the order in which backtracking tries them: the
  head of the list is the match the host language reports.
\<close>

datatype re =
    Chr "char \<Rightarrow> bool"
  | Bol
  | Eol
  | Eps
  | Seq re re
  | Alt re re
  | Star bool re
  | Plus bool re
  | Opt bool re
  | Group nat re

type_synonym captures = "nat \<Rightarrow> string option"
type_synonym mstate = "nat \<times> string \<times> captures"

definition unread :: "mstate \<Rightarrow> string" where
  "unread s = fst (snd s)"

fun groups :: "re \<Rightarrow> nat list" where
  "groups (Chr P) = []"
| "groups Bol = []"
| "groups Eol = []"
| "groups Eps = []"
| "groups (Seq a b) = groups a @ groups b"
| "groups (Alt a b) = groups a @ groups b"
| "groups (Star g a) = groups a"
| "groups (Plus g a) = groups a"
| "groups (Opt g a) = groups a"
| "groups (Group k a) = k # groups a"

definition reset :: "nat list \<Rightarrow> mstate \<Rightarrow> mstate" where
  \<comment> \<open>each iteration of a quantifier starts with the captures of its atom undefined\<close>
  "reset ks s = (case s of (e, u, caps) \<Rightarrow> (e, u, (\<lambda>k. if k \<in> set ks then None else caps k)))"

definition advanced :: "mstate \<Rightarrow> mstate \<Rightarrow> bool" where
  \<comment> \<open>an iteration of a quantifier with minimum 0 that consumed nothing is a failure\<close>
  "advanced s s' \<longleftrightarrow> length (unread s') < length (unread s)"

function iter :: "bool \<Rightarrow> (mstate \<Rightarrow> mstate list) \<Rightarrow> mstate \<Rightarrow> mstate list" where
  "iter greedy m s =
     (let more = concat (map (iter greedy m) (filter (advanced s) (m s)))
      in if greedy then more @ [s] else s # more)"
  by pat_completeness auto
termination
  by (relation "measure (\<lambda>(g, m, s). length (unread s))") (auto simp: advanced_def)

declare iter.simps [simp del]

primrec ms :: "re \<Rightarrow> mstate \<Rightarrow> mstate list" where
  "ms (Chr P) = (\<lambda>s. case s of (e, u, caps) \<Rightarrow>
     (case u of [] \<Rightarrow> [] | c # cs \<Rightarrow> if P c then [(Suc e, cs, caps)] else []))"
| "ms Bol = (\<lambda>s. case s of (e, u, caps) \<Rightarrow> if e = 0 then [s] else [])"
| "ms Eol = (\<lambda>s. case s of (e, u, caps) \<Rightarrow> if u = [] then [s] else [])"
| "ms Eps = (\<lambda>s. [s])"
| "ms (Seq a b) = (\<lambda>s. concat (map (ms b) (ms a s)))"
| "ms (Alt a b) = (\<lambda>s. ms a s @ ms b s)"
| "ms (Star g a) = (\<lambda>s. iter g (\<lambda>x. ms a (reset (groups a) x)) s)"
| "ms (Plus g a) = (\<lambda>s. concat (map (iter g (\<lambda>x. ms a (reset (groups a) x)))
                                     (ms a (reset (groups a) s))))"
| "ms (Opt g a) = (\<lambda>s. let once = filter (advanced s) (ms a (reset (groups a) s))
                       in if g then once @ [s] else s # once)"
| "ms (Group k a) = (\<lambda>s. map (\<lambda>s'. case s' of (e', u', caps') \<Rightarrow>
       (e', u', caps'(k \<mapsto> take (length (unread s) - length u') (unread s)))) (ms a s))"

fun seq :: "re list \<Rightarrow> re" where
  "seq [] = Eps"
| "seq [r] = r"
| "seq (r # rs) = Seq r (seq rs)"

text \<open>
  \<^verbatim>\<open>exec\<close> of a pattern without the global or sticky flag tries the start indices
  \<open>0, 1, \<dots>, length\<close> in turn and reports the first match: its index and its end state.
\<close>

fun exec_from :: "re \<Rightarrow> nat \<Rightarrow> string \<Rightarrow> (nat \<times> mstate) option" where
  "exec_from r i u =
     (case ms r (i, u, Map.empty) of
        s # _ \<Rightarrow> Some (i, s)
      | [] \<Rightarrow> (case u of [] \<Rightarrow> None | _ # u' \<Rightarrow> exec_from r (Suc i) u'))"

definition exec :: "re \<Rightarrow> string \<Rightarrow> (nat \<times> mstate) option" where
  "exec r str = exec_from r 0 str"

subsection \<open>Replacing with a string pattern\<close>

fun index_of :: "string \<Rightarrow> string \<Rightarrow> nat option" where
  \<comment> \<open>the index of the first occurrence of \<open>pat\<close> in the string, searched from index 0\<close>
  "index_of pat [] = (if pat = [] then Some 0 else None)"
| "index_of pat (c # cs) =
     (if prefix pat (c # cs) then Some 0 else map_option Suc (index_of pat cs))"

text \<open>
  The replacement text of \<^verbatim>\<open>replace\<close> is a template: \<^verbatim>\<open>$$\<close> stands for one dollar sign,
  \<^verbatim>\<open>$&\<close> for the matched text, \<^verbatim>\<open>$`\<close> for the text before the match and \<^verbatim>\<open>$'\<close> for the
  text after it. A string pattern has no captures, so \<^verbatim>\<open>$1\<close> \<dots> \<^verbatim>\<open>$99\<close> and \<^verbatim>\<open>$<\<close> stay as
  they are written, as every other character does.
\<close>

fun get_substitution :: "string \<Rightarrow> string \<Rightarrow> string \<Rightarrow> string \<Rightarrow> string" where
  "get_substitution matched pre post [] = []"
| "get_substitution matched pre post [c] = [c]"
| "get_substitution matched pre post (c # d # cs) =
     (if c = CHR ''$'' \<and> d = CHR ''$'' then CHR ''$'' # get_substitution matched pre post cs
      else if c = CHR ''$'' \<and> d = CHR ''&'' then matched @ get_substitution matched pre post cs
      else if c = CHR ''$'' \<and> d = CHR 0x60 then pre @ get_substitution matched pre post cs
      else if c = CHR ''$'' \<and> d = CHR 0x27 then post @ get_substitution matched pre post cs
      else c # get_substitution matched pre post (d # cs))"

definition replace :: "string \<Rightarrow> string \<Rightarrow> string \<Rightarrow> string" where
  \<comment> \<open>\<^verbatim>\<open>str.replace(pat, template)\<close> with \<open>pat\<close> and \<open>template\<close> strings\<close>
  "replace str pat template =
     (case index_of pat str of
        None \<Rightarrow> str
      | Some p \<Rightarrow>
          take p str
          @ get_substitution pat (take p str) (drop (p + length pat) str) template
          @ drop (p + length pat) str)"

subsection \<open>Exceptions\<close>

text \<open>
  The errors a call can end with: the five that \<^verbatim>\<open>Statement.compile\<close> throws, the two of the
  host language that the code can meet, and the mark of a pattern outside the fragment of
  the pattern syntax that is modelled.
\<close>

datatype error =
    InvalidStatement
  | NoLHS
  | NoRHS
  | LHSTwoEmptyWords
  | RHSTwoEmptyWords
  | TypeError
  | SyntaxError
  | OutsideFragment

subsection \<open>Searching with a pattern given as a string\<close>

text \<open>
  \<^verbatim>\<open>str.search(p)\<close> with a string \<open>p\<close> builds the pattern \<^verbatim>\<open>new RegExp(p)\<close> (no flags)
  and reports the index of its first match, or \<open>-1\<close>. The text \<open>p\<close> is therefore read in
  the pattern syntax. The fragment of that syntax modelled here has the characters that
  stand for themselves, the atom \<^verbatim>\<open>.\<close>, the assertions \<^verbatim>\<open>^\<close> and \<^verbatim>\<open>$\<close>, the quantifiers
  \<^verbatim>\<open>*\<close>, \<^verbatim>\<open>+\<close>, \<^verbatim>\<open>?\<close> (greedy, or lazy when followed by \<^verbatim>\<open>?\<close>) and the alternation \<^verbatim>\<open>|\<close>.
  A quantifier with nothing to repeat is a syntax error, thrown by the constructor. A text
  with a backslash, a parenthesis, a bracket or a brace is outside the fragment, and the
  model reports that rather than guess.
\<close>

definition outside :: "char \<Rightarrow> bool" where
  "outside c \<longleftrightarrow>
     c = CHR 0x5C \<or> c = CHR ''('' \<or> c = CHR '')'' \<or> c = CHR ''['' \<or> c = CHR '']'' \<or>
     c = CHR ''{'' \<or> c = CHR ''}''"

definition is_quantifier :: "char \<Rightarrow> bool" where
  "is_quantifier c \<longleftrightarrow> c = CHR ''*'' \<or> c = CHR ''+'' \<or> c = CHR ''?''"

definition syntax_char :: "char \<Rightarrow> bool" where
  \<comment> \<open>the characters that do not stand for themselves in a pattern\<close>
  "syntax_char c \<longleftrightarrow>
     outside c \<or> is_quantifier c \<or> c = CHR ''^'' \<or> c = CHR ''$'' \<or> c = CHR ''.'' \<or> c = CHR ''|''"

definition atom :: "char \<Rightarrow> re" where
  "atom c = (if c = CHR ''.'' then Chr is_dot else Chr (\<lambda>x. x = c))"

definition quantify :: "char \<Rightarrow> bool \<Rightarrow> re \<Rightarrow> re" where
  "quantify q greedy a =
     (if q = CHR ''*'' then Star greedy a else if q = CHR ''+'' then Plus greedy a else Opt greedy a)"

datatype pending = Fresh | Pending re | Quantified char re

fun flush :: "pending \<Rightarrow> re list" where
  "flush Fresh = []"
| "flush (Pending a) = [a]"
| "flush (Quantified q a) = [quantify q True a]"

fun prepend :: "re list \<Rightarrow> re list list \<Rightarrow> re list list" where
  "prepend ts [] = [ts]"
| "prepend ts (a # as) = (ts @ a) # as"

text \<open>
  The parser reads the text left to right and returns the alternatives, each a list of
  terms; \<open>None\<close> is the syntax error. Its state is the atom read last, if a quantifier may
  still follow it.
\<close>

fun parse :: "pending \<Rightarrow> string \<Rightarrow> re list list option" where
  "parse st [] = Some [flush st]"
| "parse st (c # cs) =
     (if is_quantifier c then
        (case st of
           Fresh \<Rightarrow> None
         | Pending a \<Rightarrow> parse (Quantified c a) cs
         | Quantified q a \<Rightarrow>
             if c = CHR ''?'' then map_option (prepend [quantify q False a]) (parse Fresh cs)
             else None)
      else if c = CHR ''|'' then map_option (\<lambda>alts. flush st # alts) (parse Fresh cs)
      else if c = CHR ''^'' then map_option (prepend (flush st @ [Bol])) (parse Fresh cs)
      else if c = CHR ''$'' then map_option (prepend (flush st @ [Eol])) (parse Fresh cs)
      else map_option (prepend (flush st)) (parse (Pending (atom c)) cs))"

fun disjunction :: "re list \<Rightarrow> re" where
  "disjunction [] = Eps"
| "disjunction [a] = a"
| "disjunction (a # as) = Alt a (disjunction as)"

definition RegExp :: "string \<Rightarrow> error + re" where
  "RegExp p =
     (if \<exists>c \<in> set p. outside c then Inl OutsideFragment
      else (case parse Fresh p of
              None \<Rightarrow> Inl SyntaxError
            | Some alts \<Rightarrow> Inr (disjunction (map seq alts))))"

definition search :: "string \<Rightarrow> string \<Rightarrow> error + int" where
  "search str p =
     (case RegExp p of
        Inl e \<Rightarrow> Inl e
      | Inr r \<Rightarrow> Inr (case exec r str of None \<Rightarrow> - 1 | Some (i, s) \<Rightarrow> int i))"

section \<open>Markov.Statement\<close>

record statement =
  lhs :: string      \<comment> \<open>the property \<^verbatim>\<open>from\<close>\<close>
  rhs :: string      \<comment> \<open>the property \<^verbatim>\<open>to\<close>\<close>
  closing :: bool

definition blanks :: re where
  "blanks = Star True (Chr is_space)"

definition token :: re where
  \<comment> \<open>\<^verbatim>\<open>\!?[^\s!\.]*\!?\<close>\<close>
  "token = seq [Opt True (Chr is_bang), Star True (Chr is_word), Opt True (Chr is_bang)]"

definition REGEX :: re where
  \<comment> \<open>\<^verbatim>\<open>/^\s*(\!?[^\s!\.]*\!?)\s*[=-]\s*>\s*(\.)*\s*(\!?[^\s!\.]*\!?)\s*$/i\<close>; the flag
      \<^verbatim>\<open>i\<close> changes nothing, since the pattern names no letter\<close>
  "REGEX = seq [Bol, blanks, Group 1 token, blanks, Chr is_shaft, blanks, Chr is_head, blanks,
                Star True (Group 2 (Chr is_period)), blanks, Group 3 token, blanks, Eol]"

definition setFrom :: "string \<Rightarrow> statement \<Rightarrow> statement" where
  \<comment> \<open>both branches store \<open>clean\<close>: the reassignment of the parameter in the second one is
      never read\<close>
  "setFrom frm self =
     (let clean = replace (replace frm ''!'' []) ''!'' []
      in if frm = ''!'' then self\<lparr>lhs := clean\<rparr> else self\<lparr>lhs := clean\<rparr>)"

definition setTo :: "string \<Rightarrow> statement \<Rightarrow> statement" where
  "setTo t self = (let clean = replace (replace t ''!'' []) ''!'' [] in self\<lparr>rhs := clean\<rparr>)"

definition Statement :: "string \<Rightarrow> string \<Rightarrow> bool \<Rightarrow> statement" where
  \<comment> \<open>the constructor\<close>
  "Statement frm t c = (setTo t (setFrom frm \<lparr>lhs = [], rhs = [], closing = False\<rparr>))\<lparr>closing := c\<rparr>"

definition compile :: "string \<Rightarrow> error + statement" where
  "compile statement =
     (case exec REGEX statement of
        None \<Rightarrow> Inl InvalidStatement
      | Some (i, e, u, compiled) \<Rightarrow>
          (case compiled 1 of
             None \<Rightarrow> Inl TypeError
           | Some c1 \<Rightarrow>
               if length c1 < 1 then Inl NoLHS
               else (case compiled 3 of
                  None \<Rightarrow> Inl TypeError
                | Some c3 \<Rightarrow>
                    if length c3 < 1 then Inl NoRHS
                    else if c1 = ''!!'' then Inl LHSTwoEmptyWords
                    else if c3 = ''!!'' then Inl RHSTwoEmptyWords
                    else Inr (Statement c1 c3
                               (case compiled 2 of None \<Rightarrow> False | Some d \<Rightarrow> d \<noteq> [])))))"

definition toString :: "statement \<Rightarrow> string" where
  "toString self =
     (if length (lhs self) < 1 then ''!'' else lhs self)
     @ (if closing self then '' ->. '' else '' -> '')
     @ (if length (rhs self) < 1 then ''!'' else rhs self)"

section \<open>Markov.Algorithm\<close>

record algorithm =
  statements :: "statement list"

definition Algorithm :: algorithm where
  "Algorithm = \<lparr>statements = []\<rparr>"

definition hasStatements :: "algorithm \<Rightarrow> bool" where
  "hasStatements self \<longleftrightarrow> length (statements self) > 0"

definition getStatements :: "algorithm \<Rightarrow> statement list" where
  "getStatements self = statements self"

text \<open>
  \<^verbatim>\<open>Array.prototype.slice\<close>: a negative index counts from the end, and both indices are
  clamped to the array. A position is an integral number; an omitted argument is \<open>None\<close>.
\<close>

definition slice :: "'a list \<Rightarrow> int \<Rightarrow> int option \<Rightarrow> 'a list" where
  "slice xs start fin =
     (let len = int (length xs);
          k = (if start < 0 then max (len + start) 0 else min start len);
          final = (case fin of
                     None \<Rightarrow> len
                   | Some e \<Rightarrow> if e < 0 then max (len + e) 0 else min e len)
      in take (nat (final - k)) (drop (nat k) xs))"

text \<open>
  \<^verbatim>\<open>addStatement\<close> compares the rule itself, not the position, with \<open>0\<close> and with the
  length. A rule compared with a number is converted by its \<^verbatim>\<open>toString\<close>; the text it
  renders always holds the arrow, which no numeric literal does, so the rule converts to
  \<^verbatim>\<open>NaN\<close> and both comparisons are false. \<^verbatim>\<open>typeof position === 'null'\<close> is false for every
  value.
\<close>

datatype number = NaN | Num int

definition ToNumber :: "statement \<Rightarrow> number" where
  "ToNumber st = NaN"

fun less_than :: "number \<Rightarrow> number \<Rightarrow> bool" where
  "less_than (Num a) (Num b) = (a < b)"
| "less_than _ _ = False"

definition addStatement :: "statement \<Rightarrow> int option \<Rightarrow> algorithm \<Rightarrow> algorithm" where
  "addStatement statement position self =
     (case position of
        None \<Rightarrow> self\<lparr>statements := statements self @ [statement]\<rparr>
      | Some p \<Rightarrow>
          if False \<or> less_than (ToNumber statement) (Num 0)
             \<or> less_than (Num (int (length (statements self)))) (ToNumber statement)
          then self\<lparr>statements := statements self @ [statement]\<rparr>
          else self\<lparr>statements :=
                 slice (statements self) 0 (Some p) @ [statement] @ slice (statements self) p None\<rparr>)"

definition pop :: "'a list \<Rightarrow> 'a option \<times> 'a list" where
  "pop xs = (if xs = [] then (None, []) else (Some (last xs), butlast xs))"

definition shift :: "'a list \<Rightarrow> 'a option \<times> 'a list" where
  "shift xs = (case xs of [] \<Rightarrow> (None, []) | x # xs' \<Rightarrow> (Some x, xs'))"

definition element :: "'a list \<Rightarrow> int \<Rightarrow> 'a option" where
  \<comment> \<open>\<^verbatim>\<open>xs[i]\<close>: \<^verbatim>\<open>undefined\<close> out of range\<close>
  "element xs i = (if 0 \<le> i \<and> i < int (length xs) then Some (xs ! nat i) else None)"

definition removeStatement :: "int option \<Rightarrow> algorithm \<Rightarrow> statement option \<times> algorithm" where
  "removeStatement position self =
     (case position of
        None \<Rightarrow> (case pop (statements self) of (x, rest) \<Rightarrow> (x, self\<lparr>statements := rest\<rparr>))
      | Some p \<Rightarrow>
          if p \<ge> int (length (statements self)) - 1
          then (case pop (statements self) of (x, rest) \<Rightarrow> (x, self\<lparr>statements := rest\<rparr>))
          else if p < 0
          then (case shift (statements self) of (x, rest) \<Rightarrow> (x, self\<lparr>statements := rest\<rparr>))
          else (element (statements self) p,
                self\<lparr>statements :=
                  slice (statements self) 0 (Some p) @ slice (statements self) 0 (Some (p + 1))\<rparr>))"

section \<open>Markov.Runner\<close>

record runner =
  rcontext :: string                                  \<comment> \<open>the property \<^verbatim>\<open>context\<close>\<close>
  algorithm :: algorithm
  steps :: "(string \<times> statement option) list"       \<comment> \<open>the records \<^verbatim>\<open>{context, statement}\<close>\<close>
  rdone :: bool                                       \<comment> \<open>the property \<^verbatim>\<open>done\<close>\<close>

definition Runner :: "algorithm \<Rightarrow> string \<Rightarrow> runner" where
  "Runner alg c = \<lparr>rcontext = c, algorithm = alg, steps = [], rdone = False\<rparr>"

definition stop :: "runner \<Rightarrow> runner" where
  "stop self = self\<lparr>rdone := True\<rparr>"

text \<open>
  The loop of \<^verbatim>\<open>step\<close> over the rules. It ends at the first rule whose \<^verbatim>\<open>search\<close> is
  above \<open>-1\<close>; the rule is then applied with \<^verbatim>\<open>replace\<close> and recorded. An exception thrown
  by \<^verbatim>\<open>search\<close> leaves the call at once: the result \<open>Inl\<close> carries the error and the
  engine as the call left it.
\<close>

fun scan :: "statement list \<Rightarrow> runner \<Rightarrow> (error \<times> runner) + (runner \<times> statement option)" where
  "scan [] self = Inr (stop self, None)"
| "scan (statement # rest) self =
     (case search (rcontext self) (lhs statement) of
        Inl e \<Rightarrow> Inl (e, self)
      | Inr found \<Rightarrow>
          if found > - 1 then
            let c = replace (rcontext self) (lhs statement) (rhs statement);
                self' = self\<lparr>rcontext := c, steps := steps self @ [(c, Some statement)]\<rparr>
            in Inr (if closing statement then stop self' else self', Some statement)
          else scan rest self)"

definition step :: "runner \<Rightarrow> (error \<times> runner) + (runner \<times> statement option)" where
  "step self =
     (if rdone self then Inr (self, None)
      else
        let self' = (if length (steps self) < 1
                     then self\<lparr>steps := steps self @ [(rcontext self, None)]\<rparr> else self)
        in scan (getStatements (algorithm self')) self')"

text \<open>
  \<^verbatim>\<open>run\<close> calls \<^verbatim>\<open>step\<close> until the engine is done. The loop need not end: the value
  \<open>None\<close> of \<open>drain\<close> is the call that never returns.
\<close>

partial_function (option) drain :: "runner \<Rightarrow> ((error \<times> runner) + runner) option" where
  "drain self =
     (if rdone self then Some (Inr self)
      else (case step self of
              Inl e \<Rightarrow> Some (Inl e)
            | Inr (self', applied) \<Rightarrow> drain self'))"

declare drain.simps [code]

definition run :: "runner \<Rightarrow> ((error \<times> runner) + (runner \<times> bool)) option" where
  "run self =
     (if rdone self then Some (Inr (self, False))
      else map_option (map_sum id (\<lambda>r. (r, True))) (drain self))"

text \<open>
  The engines a caller can reach: \<open>drive r0 n r\<close> holds when \<open>r\<close> is the engine \<open>r0\<close>
  after some calls of \<^verbatim>\<open>step\<close>, \<open>n\<close> of which applied a rule. A call that throws leaves the
  engine as it was at the throw.
\<close>

inductive drive :: "runner \<Rightarrow> nat \<Rightarrow> runner \<Rightarrow> bool" where
  start: "drive r0 0 r0"
| fired: "drive r0 n r \<Longrightarrow> step r = Inr (r', Some st) \<Longrightarrow> drive r0 (Suc n) r'"
| idle: "drive r0 n r \<Longrightarrow> step r = Inr (r', None) \<Longrightarrow> drive r0 n r'"
| threw: "drive r0 n r \<Longrightarrow> step r = Inl (e, r') \<Longrightarrow> drive r0 n r'"

section \<open>Notions used to state the properties\<close>

subsection \<open>Texts and components of a statement\<close>

text \<open>
  A text is \<open>tokenish\<close> when it is a run of characters other than white space, \<^verbatim>\<open>!\<close> and
  \<^verbatim>\<open>.\<close>, with at most one \<^verbatim>\<open>!\<close> before it and at most one after it. A component is
  \<open>validated\<close> when it passes what \<^verbatim>\<open>compile\<close> checks of a side of a rule: the pattern of a
  token matches all of it, it is not empty and it is not \<^verbatim>\<open>!!\<close>.
\<close>

definition tokenish :: "string \<Rightarrow> bool" where
  "tokenish w \<longleftrightarrow>
     (\<exists>b1 m b2. w = b1 @ m @ b2 \<and> (b1 = [] \<or> b1 = ''!'') \<and> list_all is_word m \<and>
                 (b2 = [] \<or> b2 = ''!''))"

definition validated :: "string \<Rightarrow> bool" where
  "validated w \<longleftrightarrow>
     (\<exists>s \<in> set (ms token (0, w, Map.empty)). unread s = []) \<and> \<not> length w < 1 \<and> w \<noteq> ''!!''"

text \<open>
  The texts that \<^verbatim>\<open>Statement.REGEX\<close> matches, said without the matcher: white space, a
  token, white space, \<^verbatim>\<open>=\<close> or \<^verbatim>\<open>-\<close>, white space, \<^verbatim>\<open>>\<close>, white space, any number of dots,
  white space, a token, white space.
\<close>

definition well_formed :: "string \<Rightarrow> bool" where
  "well_formed text \<longleftrightarrow>
     (\<exists>w1 L w2 a w3 w4 d w5 R w6.
        text = w1 @ L @ w2 @ [a] @ w3 @ ''>'' @ w4 @ d @ w5 @ R @ w6 \<and>
        list_all is_space w1 \<and> tokenish L \<and> list_all is_space w2 \<and> is_shaft a \<and>
        list_all is_space w3 \<and> list_all is_space w4 \<and> list_all is_period d \<and>
        list_all is_space w5 \<and> tokenish R \<and> list_all is_space w6)"

text \<open>
  The grammar as the specification words it, \<^verbatim>\<open>^\s*(LHS)\s*(->|=>)\s*(\.)?\s*(RHS)\s*$\<close> with
  \<open>LHS\<close> and \<open>RHS\<close> runs of characters that are not white space, and the texts it says
  \<^verbatim>\<open>compile\<close> rejects: those the grammar does not match, and those whose \<open>LHS\<close> or \<open>RHS\<close> is
  missing or is \<^verbatim>\<open>!!\<close>.
\<close>

definition is_nonspace :: "char \<Rightarrow> bool" where
  "is_nonspace c \<longleftrightarrow> \<not> is_space c"

definition SPEC_GRAMMAR :: re where
  "SPEC_GRAMMAR =
     seq [Bol, blanks, Group 1 (Star True (Chr is_nonspace)), blanks,
          Group 2 (Alt (Seq (Chr (\<lambda>c. c = CHR ''-'')) (Chr is_head))
                       (Seq (Chr (\<lambda>c. c = CHR ''='')) (Chr is_head))),
          blanks, Opt True (Group 3 (Chr is_period)), blanks,
          Group 4 (Star True (Chr is_nonspace)), blanks, Eol]"

definition spec_rejects :: "string \<Rightarrow> bool" where
  "spec_rejects str =
     (case exec SPEC_GRAMMAR str of
        None \<Rightarrow> True
      | Some (i, e, u, c) \<Rightarrow>
          c 1 = Some [] \<or> c 4 = Some [] \<or> c 1 = Some ''!!'' \<or> c 4 = Some ''!!'')"

text \<open>
  A pattern is \<open>plain\<close> when each of its characters stands for itself in the pattern
  syntax; \<open>literal p\<close> is the pattern that matches the text \<open>p\<close> and nothing else.
\<close>

definition plain :: "string \<Rightarrow> bool" where
  "plain p \<longleftrightarrow> (\<forall>c \<in> set p. \<not> syntax_char c)"

definition literal :: "string \<Rightarrow> re" where
  "literal p = seq (map (\<lambda>c. Chr (\<lambda>x. x = c)) p)"

text \<open>
  \<open>clamp len p\<close> is the index that \<^verbatim>\<open>slice\<close> makes of the position \<open>p\<close> on an array of
  length \<open>len\<close>.
\<close>

definition clamp :: "nat \<Rightarrow> int \<Rightarrow> nat" where
  "clamp len p = nat (if p < 0 then max (int len + p) 0 else min p (int len))"

subsection \<open>The engine\<close>

text \<open>
  A rule is unmatched in a context when the test of \<^verbatim>\<open>step\<close>, \<^verbatim>\<open>context.search(from) > -1\<close>,
  returns and fails. \<open>applied_to\<close> is the engine after the body of the loop has applied a
  rule, \<open>entered\<close> the engine after the first statement of \<^verbatim>\<open>step\<close>, which records the
  initial context on the first call. \<open>recorded\<close> is the invariant of the history.
\<close>

definition unmatched :: "string \<Rightarrow> statement \<Rightarrow> bool" where
  "unmatched c st \<longleftrightarrow> (\<exists>i. search c (lhs st) = Inr i \<and> \<not> i > - 1)"

definition applied_to :: "statement \<Rightarrow> runner \<Rightarrow> runner" where
  "applied_to st r =
     (let c = replace (rcontext r) (lhs st) (rhs st);
          r' = r\<lparr>rcontext := c, steps := steps r @ [(c, Some st)]\<rparr>
      in if closing st then stop r' else r')"

definition entered :: "runner \<Rightarrow> runner" where
  "entered r = (if length (steps r) < 1 then r\<lparr>steps := steps r @ [(rcontext r, None)]\<rparr> else r)"

definition recorded :: "runner \<Rightarrow> nat \<Rightarrow> runner \<Rightarrow> bool" where
  "recorded r0 n r \<longleftrightarrow>
     (steps r = [] \<and> n = 0 \<and> \<not> rdone r \<and> rcontext r = rcontext r0) \<or>
     (length (steps r) = n + 1 \<and> hd (steps r) = (rcontext r0, None) \<and>
      fst (last (steps r)) = rcontext r)"

subsection \<open>The matcher\<close>

text \<open>
  \<open>leads r s s'\<close> says that \<open>s'\<close> is the first end state of the pattern \<open>r\<close> from the state
  \<open>s\<close>, the one backtracking finds. \<open>render\<close> is the text \<^verbatim>\<open>toString\<close> writes for a side of
  a rule.
\<close>

definition caps_of :: "mstate \<Rightarrow> captures" where
  "caps_of s = snd (snd s)"

definition leads :: "re \<Rightarrow> mstate \<Rightarrow> mstate \<Rightarrow> bool" where
  "leads r s s' \<longleftrightarrow> (\<exists>t. ms r s = s' # t)"

definition render :: "string \<Rightarrow> string" where
  "render w = (if length w < 1 then ''!'' else w)"

section \<open>The matcher\<close>

text \<open>
  Facts about the backtracking matcher: what a star over a character class returns, which
  end state comes first, what every end state has consumed and captured.
\<close>

lemma unread_simp [simp]: "unread (e, u, caps) = u"
  by (simp add: unread_def)

lemma caps_of_simp [simp]: "caps_of (e, u, caps) = caps"
  by (simp add: caps_of_def)

lemma reset_Nil [simp]: "reset [] s = s"
  by (cases s) (simp add: reset_def)

lemma unread_reset [simp]: "unread (reset ks s) = unread s"
  by (cases s) (simp add: reset_def)

lemma caps_reset: "caps_of (reset ks s) k = (if k \<in> set ks then None else caps_of s k)"
  by (cases s) (simp add: reset_def)

lemma advanced_simp [simp]: "advanced (e, u, caps) (e', u', caps') \<longleftrightarrow> length u' < length u"
  by (simp add: advanced_def)

subsection \<open>A star over one character class\<close>

lemma ms_Chr_Cons [simp]:
  "ms (Chr P) (e, c # cs, caps) = (if P c then [(Suc e, cs, caps)] else [])"
  by simp

lemma ms_Chr_Nil [simp]: "ms (Chr P) (e, [], caps) = []"
  by simp

lemma ms_Star_Chr:
  "ms (Star True (Chr P)) (e, u, caps) =
     map (\<lambda>k. (e + k, drop k u, caps)) (rev [0..<Suc (length (takeWhile P u))])"
proof (induction u arbitrary: e)
  case Nil
  show ?case by (simp add: iter.simps)
next
  case (Cons c cs)
  show ?case
  proof (cases "P c")
    case True
    have "ms (Star True (Chr P)) (e, c # cs, caps)
            = ms (Star True (Chr P)) (Suc e, cs, caps) @ [(e, c # cs, caps)]"
      using True by (subst ms.simps, subst iter.simps) simp
    also have "\<dots> = map (\<lambda>k. (Suc e + k, drop k cs, caps)) (rev [0..<Suc (length (takeWhile P cs))])
                     @ [(e, c # cs, caps)]"
      by (simp only: Cons.IH)
    also have "\<dots> = map (\<lambda>k. (e + k, drop k (c # cs), caps))
                        (rev [0..<Suc (length (takeWhile P (c # cs)))])"
    proof -
      have "[0..<Suc (Suc n)] = 0 # map Suc [0..<Suc n]" for n
        by (metis map_Suc_upt upt_conv_Cons zero_less_Suc)
      then show ?thesis using True by (simp add: rev_map comp_def del: upt_Suc)
    qed
    finally show ?thesis .
  next
    case False
    then show ?thesis by (subst ms.simps, subst iter.simps) simp
  qed
qed

lemma ms_Opt_Chr:
  "ms (Opt True (Chr P)) (e, u, caps) =
     (case u of [] \<Rightarrow> [(e, u, caps)]
      | c # cs \<Rightarrow> if P c then [(Suc e, cs, caps), (e, u, caps)] else [(e, u, caps)])"
  by (cases u) simp_all

subsection \<open>First matches\<close>

lemma leads_Seq: "leads a s s1 \<Longrightarrow> leads b s1 s2 \<Longrightarrow> leads (Seq a b) s s2"
  by (auto simp: leads_def)

lemma leads_seq_Nil: "leads (seq []) s s"
  by (simp add: leads_def)

lemma leads_seq_Cons: "leads r s s1 \<Longrightarrow> leads (seq rs) s1 s2 \<Longrightarrow> leads (seq (r # rs)) s s2"
  by (cases rs) (auto simp: leads_def)

lemma leads_Bol: "leads Bol (0, u, caps) (0, u, caps)"
  by (simp add: leads_def)

lemma leads_Eol: "leads Eol (e, [], caps) (e, [], caps)"
  by (simp add: leads_def)

lemma leads_Chr: "P c \<Longrightarrow> leads (Chr P) (e, c # cs, caps) (Suc e, cs, caps)"
  by (simp add: leads_def)

lemma leads_Star_Chr:
  assumes "list_all P w" and "v = [] \<or> \<not> P (hd v)"
  shows "leads (Star True (Chr P)) (e, w @ v, caps) (e + length w, v, caps)"
proof -
  have "takeWhile P v = []" using assms(2) by (cases v) auto
  then have "takeWhile P (w @ v) = w"
    using assms(1) by (simp add: list_all_iff takeWhile_append2)
  then show ?thesis
    unfolding leads_def ms_Star_Chr by simp
qed

lemma leads_Star_Chr_none:
  "v = [] \<or> \<not> P (hd v) \<Longrightarrow> leads (Star True (Chr P)) (e, v, caps) (e, v, caps)"
  using leads_Star_Chr [of P "[]" v e caps] by simp

lemma leads_Opt_skip:
  "u = [] \<or> \<not> P (hd u) \<Longrightarrow> leads (Opt True (Chr P)) (e, u, caps) (e, u, caps)"
  unfolding leads_def ms_Opt_Chr by (cases u) auto

lemma leads_Opt_take: "P c \<Longrightarrow> leads (Opt True (Chr P)) (e, c # cs, caps) (Suc e, cs, caps)"
  unfolding leads_def ms_Opt_Chr by simp

lemma leads_Group:
  "leads a (e, u, caps) (e', u', caps') \<Longrightarrow>
   leads (Group k a) (e, u, caps) (e', u', caps'(k \<mapsto> take (length u - length u') u))"
  by (auto simp: leads_def)

lemma space_not_word: "is_space c \<Longrightarrow> \<not> is_word c \<and> \<not> is_bang c \<and> \<not> is_period c"
  by (auto simp: is_word_def is_space_def is_bang_def is_period_def)

lemma word_not_space: "is_word c \<Longrightarrow> \<not> is_space c \<and> \<not> is_bang c \<and> \<not> is_period c"
  by (auto simp: is_word_def is_bang_def is_period_def)

lemma leads_token_word:
  assumes "list_all is_word w" and "v = [] \<or> is_space (hd v)"
  shows "leads token (e, w @ v, caps) (e + length w, v, caps)"
proof -
  have v: "v = [] \<or> \<not> is_word (hd v)" "v = [] \<or> \<not> is_bang (hd v)"
    using assms(2) space_not_word by blast+
  have "w @ v = [] \<or> \<not> is_bang (hd (w @ v))"
    using assms(1) v(2) word_not_space by (cases w) auto
  then have 1: "leads (Opt True (Chr is_bang)) (e, w @ v, caps) (e, w @ v, caps)"
    by (rule leads_Opt_skip)
  have 2: "leads (Star True (Chr is_word)) (e, w @ v, caps) (e + length w, v, caps)"
    using assms(1) v(1) by (rule leads_Star_Chr)
  have 3: "leads (Opt True (Chr is_bang)) (e + length w, v, caps) (e + length w, v, caps)"
    using v(2) by (rule leads_Opt_skip)
  show ?thesis
    unfolding token_def
    by (intro leads_seq_Cons [OF 1] leads_seq_Cons [OF 2] leads_seq_Cons [OF 3] leads_seq_Nil)
qed

lemma leads_token_bang:
  assumes "v = [] \<or> is_space (hd v)"
  shows "leads token (e, CHR ''!'' # v, caps) (Suc e, v, caps)"
proof -
  have v: "v = [] \<or> \<not> is_word (hd v)" "v = [] \<or> \<not> is_bang (hd v)"
    using assms space_not_word by blast+
  have 1: "leads (Opt True (Chr is_bang)) (e, CHR ''!'' # v, caps) (Suc e, v, caps)"
    by (rule leads_Opt_take) (simp add: is_bang_def)
  have 2: "leads (Star True (Chr is_word)) (Suc e, v, caps) (Suc e, v, caps)"
    using v(1) by (rule leads_Star_Chr_none)
  have 3: "leads (Opt True (Chr is_bang)) (Suc e, v, caps) (Suc e, v, caps)"
    using v(2) by (rule leads_Opt_skip)
  show ?thesis
    unfolding token_def
    by (intro leads_seq_Cons [OF 1] leads_seq_Cons [OF 2] leads_seq_Cons [OF 3] leads_seq_Nil)
qed

lemma leads_token_render:
  assumes "list_all is_word w" and "v = [] \<or> is_space (hd v)"
  shows "leads token (e, render w @ v, caps) (e + length (render w), v, caps)"
proof (cases "w = []")
  case True
  with leads_token_bang [OF assms(2)] show ?thesis by (simp add: render_def)
next
  case False
  with leads_token_word [OF assms] show ?thesis by (simp add: render_def)
qed

lemma leads_group_render:
  assumes "list_all is_word w" and "v = [] \<or> is_space (hd v)"
  shows "leads (Group k token) (e, render w @ v, caps)
           (e + length (render w), v, caps(k \<mapsto> render w))"
  using leads_Group [OF leads_token_render [OF assms], of k e caps] by simp

lemma reset_update:
  "(\<lambda>x. if x = k then None else caps x)(k \<mapsto> v) = caps(k \<mapsto> v)"
  by (rule ext) simp

lemma ms_Star_unfold:
  "ms (Star True a) s =
     concat (map (ms (Star True a)) (filter (advanced s) (ms a (reset (groups a) s)))) @ [s]"
  by (simp add: iter.simps [of True _ s])

lemma ms_periods_none:
  assumes "v = [] \<or> \<not> is_period (hd v)"
  shows "ms (Star True (Group k (Chr is_period))) (e, v, caps) = [(e, v, caps)]"
proof -
  have "ms (Group k (Chr is_period)) (reset [k] (e, v, caps)) = []"
    using assms by (cases v) (auto simp: reset_def)
  then show ?thesis
    by (subst ms_Star_unfold) (simp del: ms.simps)
qed

lemma ms_periods_step:
  "ms (Star True (Group k (Chr is_period))) (e, CHR ''.'' # u, caps) =
     ms (Star True (Group k (Chr is_period))) (Suc e, u, caps(k \<mapsto> ''.''))
     @ [(e, CHR ''.'' # u, caps)]"
proof -
  have m: "ms (Group k (Chr is_period)) (reset [k] (e, CHR ''.'' # u, caps))
           = [(Suc e, u, caps(k \<mapsto> ''.''))]"
    by (simp add: reset_def is_period_def reset_update)
  show ?thesis
    by (subst ms_Star_unfold) (simp add: m del: ms.simps)
qed

lemma leads_periods_none:
  "v = [] \<or> \<not> is_period (hd v) \<Longrightarrow>
   leads (Star True (Group k (Chr is_period))) (e, v, caps) (e, v, caps)"
  unfolding leads_def by (simp add: ms_periods_none del: ms.simps)

lemma leads_periods_some:
  assumes "v = [] \<or> \<not> is_period (hd v)"
  shows "leads (Star True (Group k (Chr is_period))) (e, replicate (Suc n) CHR ''.'' @ v, caps)
           (e + Suc n, v, caps(k \<mapsto> ''.''))"
proof (induction n arbitrary: e caps)
  case 0
  show ?case
    unfolding leads_def
    by (simp add: ms_periods_step ms_periods_none [OF assms] del: ms.simps)
next
  case (Suc n)
  from Suc.IH [of "Suc e" "caps(k \<mapsto> ''.'')"]
  obtain t where "ms (Star True (Group k (Chr is_period)))
                    (Suc e, replicate (Suc n) CHR ''.'' @ v, caps(k \<mapsto> ''.''))
                  = (Suc e + Suc n, v, caps(k \<mapsto> ''.'')) # t"
    unfolding leads_def by (auto simp del: ms.simps replicate.simps)
  then show ?case
    unfolding leads_def
    by (simp del: ms.simps, subst ms_periods_step, simp del: ms.simps)
qed

lemma index_of_single:
  "index_of [c] s = (if c \<in> set s then Some (length (takeWhile (\<lambda>x. x \<noteq> c) s)) else None)"
  by (induction s) simp_all

subsection \<open>The rendered text of a rule compiles to the rule\<close>

lemma replace_remove1: "replace s [c] [] = remove1 c s"
proof (induction s)
  case Nil
  show ?case by (simp add: replace_def)
next
  case (Cons x xs)
  show ?case
  proof (cases "x = c")
    case True
    then show ?thesis by (simp add: replace_def)
  next
    case False
    show ?thesis
    proof (cases "index_of [c] xs")
      case None
      with Cons.IH have "remove1 c xs = xs" by (simp add: replace_def)
      with None False show ?thesis by (simp add: replace_def)
    next
      case (Some p)
      with Cons.IH have "remove1 c xs = take p xs @ drop (Suc p) xs" by (simp add: replace_def)
      with Some False show ?thesis by (simp add: replace_def)
    qed
  qed
qed

lemma clean_render:
  assumes "list_all is_word w"
  shows "replace (replace (render w) ''!'' []) ''!'' [] = w"
proof -
  have "CHR ''!'' \<notin> set w" using assms by (auto simp: list_all_iff is_word_def)
  then have "remove1 CHR ''!'' w = w" by (simp add: remove1_idem)
  then show ?thesis by (simp add: render_def replace_remove1)
qed

lemma Statement_render:
  "list_all is_word x \<Longrightarrow> list_all is_word y \<Longrightarrow>
   Statement (render x) (render y) c = \<lparr>lhs = x, rhs = y, closing = c\<rparr>"
  by (simp add: Statement_def setFrom_def setTo_def clean_render)

lemma toString_render:
  "toString r = render (lhs r) @ (if closing r then '' ->. '' else '' -> '') @ render (rhs r)"
  by (simp add: toString_def render_def)

lemma render_shape:
  "list_all is_word w \<Longrightarrow>
   render w \<noteq> [] \<and> \<not> is_space (hd (render w)) \<and> render w \<noteq> ''!!'' \<and> \<not> is_period (hd (render w))"
  by (cases w) (auto simp: render_def is_space_def is_period_def is_word_def)

lemma leads_blanks_skip:
  "u = [] \<or> \<not> is_space (hd u) \<Longrightarrow> leads blanks (e, u, caps) (e, u, caps)"
  unfolding blanks_def by (rule leads_Star_Chr_none)

lemma leads_blanks_one:
  "u = [] \<or> \<not> is_space (hd u) \<Longrightarrow> leads blanks (e, CHR '' '' # u, caps) (Suc e, u, caps)"
  unfolding blanks_def using leads_Star_Chr [of is_space "'' ''" u e caps]
  by (simp add: is_space_def)

lemma leads_REGEX_open:
  assumes x: "list_all is_word x" and y: "list_all is_word y"
  shows "\<exists>e. leads REGEX (0, render x @ '' -> '' @ render y, Map.empty)
               (e, [], [1 \<mapsto> render x, 3 \<mapsto> render y])"
proof -
  let ?X = "render x" and ?Y = "render y"
  note sx = render_shape [OF x] and sy = render_shape [OF y]
  let ?c1 = "[1 \<mapsto> ?X]"
  let ?l = "length ?X"
  have 1: "leads Bol (0, ?X @ '' -> '' @ ?Y, Map.empty) (0, ?X @ '' -> '' @ ?Y, Map.empty)"
    by (rule leads_Bol)
  have 2: "leads blanks (0, ?X @ '' -> '' @ ?Y, Map.empty) (0, ?X @ '' -> '' @ ?Y, Map.empty)"
    using sx by (intro leads_blanks_skip) (cases ?X, auto)
  have 3: "leads (Group 1 token) (0, ?X @ '' -> '' @ ?Y, Map.empty) (?l, '' -> '' @ ?Y, ?c1)"
    using leads_group_render [OF x, of "'' -> '' @ ?Y" 1 0 Map.empty]
    by (simp add: is_space_def)
  have 4: "leads blanks (?l, '' -> '' @ ?Y, ?c1) (Suc ?l, ''-> '' @ ?Y, ?c1)"
    using leads_blanks_one [of "''-> '' @ ?Y" ?l ?c1] by (simp add: is_space_def)
  have 5: "leads (Chr is_shaft) (Suc ?l, ''-> '' @ ?Y, ?c1) (Suc (Suc ?l), ''> '' @ ?Y, ?c1)"
    using leads_Chr [of is_shaft "CHR ''-''"] by (simp add: is_shaft_def)
  have 6: "leads blanks (Suc (Suc ?l), ''> '' @ ?Y, ?c1) (Suc (Suc ?l), ''> '' @ ?Y, ?c1)"
    by (intro leads_blanks_skip) (simp add: is_space_def)
  have 7: "leads (Chr is_head) (Suc (Suc ?l), ''> '' @ ?Y, ?c1) (Suc (Suc (Suc ?l)), '' '' @ ?Y, ?c1)"
    using leads_Chr [of is_head "CHR ''>''"] by (simp add: is_head_def)
  have ny: "?Y = [] \<or> \<not> is_space (hd ?Y)" using sy by simp
  have 8: "leads blanks (Suc (Suc (Suc ?l)), '' '' @ ?Y, ?c1) (Suc (Suc (Suc (Suc ?l))), ?Y, ?c1)"
    using leads_blanks_one [OF ny, of "Suc (Suc (Suc ?l))" ?c1] by simp
  let ?e = "Suc (Suc (Suc (Suc ?l)))"
  have 9: "leads (Star True (Group 2 (Chr is_period))) (?e, ?Y, ?c1) (?e, ?Y, ?c1)"
    using sy by (intro leads_periods_none) simp
  have 10: "leads blanks (?e, ?Y, ?c1) (?e, ?Y, ?c1)"
    using ny by (rule leads_blanks_skip)
  have 11: "leads (Group 3 token) (?e, ?Y, ?c1) (?e + length ?Y, [], ?c1(3 \<mapsto> ?Y))"
    using leads_group_render [OF y, of "[]" 3 ?e ?c1] by simp
  have 12: "leads blanks (?e + length ?Y, [], ?c1(3 \<mapsto> ?Y)) (?e + length ?Y, [], ?c1(3 \<mapsto> ?Y))"
    by (rule leads_blanks_skip) simp
  have 13: "leads Eol (?e + length ?Y, [], ?c1(3 \<mapsto> ?Y)) (?e + length ?Y, [], ?c1(3 \<mapsto> ?Y))"
    by (rule leads_Eol)
  have "leads REGEX (0, ?X @ '' -> '' @ ?Y, Map.empty) (?e + length ?Y, [], ?c1(3 \<mapsto> ?Y))"
    unfolding REGEX_def
    by (intro leads_seq_Cons [OF 1] leads_seq_Cons [OF 2] leads_seq_Cons [OF 3]
          leads_seq_Cons [OF 4] leads_seq_Cons [OF 5] leads_seq_Cons [OF 6] leads_seq_Cons [OF 7]
          leads_seq_Cons [OF 8] leads_seq_Cons [OF 9] leads_seq_Cons [OF 10]
          leads_seq_Cons [OF 11] leads_seq_Cons [OF 12] leads_seq_Cons [OF 13] leads_seq_Nil)
  then show ?thesis by blast
qed

lemma leads_REGEX_closing:
  assumes x: "list_all is_word x" and y: "list_all is_word y"
  shows "\<exists>e. leads REGEX (0, render x @ '' ->'' @ replicate (Suc n) CHR ''.'' @ '' '' @ render y,
                          Map.empty)
               (e, [], [1 \<mapsto> render x, 2 \<mapsto> ''.'', 3 \<mapsto> render y])"
proof -
  let ?X = "render x" and ?Y = "render y"
  let ?D = "replicate (Suc n) CHR ''.''"
  note sx = render_shape [OF x] and sy = render_shape [OF y]
  let ?c1 = "[1 \<mapsto> ?X]"
  let ?c2 = "[1 \<mapsto> ?X, 2 \<mapsto> ''.'']"
  let ?l = "length ?X"
  let ?T = "?X @ '' ->'' @ ?D @ '' '' @ ?Y"
  have 1: "leads Bol (0, ?T, Map.empty) (0, ?T, Map.empty)"
    by (rule leads_Bol)
  have 2: "leads blanks (0, ?T, Map.empty) (0, ?T, Map.empty)"
    using sx by (intro leads_blanks_skip) (cases ?X, auto)
  have 3: "leads (Group 1 token) (0, ?T, Map.empty) (?l, '' ->'' @ ?D @ '' '' @ ?Y, ?c1)"
    using leads_group_render [OF x, of "'' ->'' @ ?D @ '' '' @ ?Y" 1 0 Map.empty]
    by (simp add: is_space_def)
  have 4: "leads blanks (?l, '' ->'' @ ?D @ '' '' @ ?Y, ?c1) (Suc ?l, ''->'' @ ?D @ '' '' @ ?Y, ?c1)"
    using leads_blanks_one [of "''->'' @ ?D @ '' '' @ ?Y" ?l ?c1] by (simp add: is_space_def)
  have 5: "leads (Chr is_shaft) (Suc ?l, ''->'' @ ?D @ '' '' @ ?Y, ?c1)
             (Suc (Suc ?l), ''>'' @ ?D @ '' '' @ ?Y, ?c1)"
    using leads_Chr [of is_shaft "CHR ''-''"] by (simp add: is_shaft_def)
  have 6: "leads blanks (Suc (Suc ?l), ''>'' @ ?D @ '' '' @ ?Y, ?c1)
             (Suc (Suc ?l), ''>'' @ ?D @ '' '' @ ?Y, ?c1)"
    by (intro leads_blanks_skip) (simp add: is_space_def)
  let ?e = "Suc (Suc (Suc ?l))"
  have 7: "leads (Chr is_head) (Suc (Suc ?l), ''>'' @ ?D @ '' '' @ ?Y, ?c1) (?e, ?D @ '' '' @ ?Y, ?c1)"
    using leads_Chr [of is_head "CHR ''>''"] by (simp add: is_head_def)
  have 8: "leads blanks (?e, ?D @ '' '' @ ?Y, ?c1) (?e, ?D @ '' '' @ ?Y, ?c1)"
    by (intro leads_blanks_skip) (simp add: is_space_def)
  have 9: "leads (Star True (Group 2 (Chr is_period))) (?e, ?D @ '' '' @ ?Y, ?c1)
             (?e + Suc n, '' '' @ ?Y, ?c2)"
    by (intro leads_periods_some) (simp add: is_period_def)
  have ny: "?Y = [] \<or> \<not> is_space (hd ?Y)" using sy by simp
  have 10: "leads blanks (?e + Suc n, '' '' @ ?Y, ?c2) (Suc (?e + Suc n), ?Y, ?c2)"
    using leads_blanks_one [OF ny, of "?e + Suc n" ?c2] by simp
  let ?f = "Suc (?e + Suc n)"
  have 11: "leads (Group 3 token) (?f, ?Y, ?c2) (?f + length ?Y, [], ?c2(3 \<mapsto> ?Y))"
    using leads_group_render [OF y, of "[]" 3 ?f ?c2] by simp
  have 12: "leads blanks (?f + length ?Y, [], ?c2(3 \<mapsto> ?Y)) (?f + length ?Y, [], ?c2(3 \<mapsto> ?Y))"
    by (rule leads_blanks_skip) simp
  have 13: "leads Eol (?f + length ?Y, [], ?c2(3 \<mapsto> ?Y)) (?f + length ?Y, [], ?c2(3 \<mapsto> ?Y))"
    by (rule leads_Eol)
  have "leads REGEX (0, ?T, Map.empty) (?f + length ?Y, [], ?c2(3 \<mapsto> ?Y))"
    unfolding REGEX_def
    by (intro leads_seq_Cons [OF 1] leads_seq_Cons [OF 2] leads_seq_Cons [OF 3]
          leads_seq_Cons [OF 4] leads_seq_Cons [OF 5] leads_seq_Cons [OF 6] leads_seq_Cons [OF 7]
          leads_seq_Cons [OF 8] leads_seq_Cons [OF 9] leads_seq_Cons [OF 10]
          leads_seq_Cons [OF 11] leads_seq_Cons [OF 12] leads_seq_Cons [OF 13] leads_seq_Nil)
  then show ?thesis by blast
qed

lemma exec_leads: "leads r (0, t, Map.empty) s \<Longrightarrow> exec r t = Some (0, s)"
  by (auto simp: exec_def leads_def)

lemma compile_render_open:
  assumes x: "list_all is_word x" and y: "list_all is_word y"
  shows "compile (render x @ '' -> '' @ render y) = Inr \<lparr>lhs = x, rhs = y, closing = False\<rparr>"
proof -
  from leads_REGEX_open [OF x y] obtain e where
    "exec REGEX (render x @ '' -> '' @ render y)
       = Some (0, e, [], [1 \<mapsto> render x, 3 \<mapsto> render y])"
    by (blast dest: exec_leads)
  then show ?thesis
    using render_shape [OF x] render_shape [OF y]
    by (simp add: compile_def Statement_render [OF x y])
qed

lemma compile_render_closing:
  assumes x: "list_all is_word x" and y: "list_all is_word y"
  shows "compile (render x @ '' ->'' @ replicate (Suc n) CHR ''.'' @ '' '' @ render y)
           = Inr \<lparr>lhs = x, rhs = y, closing = True\<rparr>"
proof -
  from leads_REGEX_closing [OF x y, of n] obtain e where
    "exec REGEX (render x @ '' ->'' @ replicate (Suc n) CHR ''.'' @ '' '' @ render y)
       = Some (0, e, [], [1 \<mapsto> render x, 2 \<mapsto> ''.'', 3 \<mapsto> render y])"
    by (blast dest: exec_leads)
  then show ?thesis
    using render_shape [OF x] render_shape [OF y]
    by (simp add: compile_def Statement_render [OF x y] del: replicate.simps)
qed

lemma compile_toString_words:
  assumes "list_all is_word (lhs r)" and "list_all is_word (rhs r)"
  shows "compile (toString r) = Inr r"
proof (cases "closing r")
  case True
  with compile_render_closing [OF assms, of 0] show ?thesis
    by (simp add: toString_render)
next
  case False
  with compile_render_open [OF assms] show ?thesis
    by (simp add: toString_render)
qed

subsection \<open>Every end state of a match: captures and consumed text\<close>

lemma set_ms_Seq: "set (ms (Seq a b) s) = (\<Union>s1 \<in> set (ms a s). set (ms b s1))"
  by simp

lemma set_ms_seq_Cons: "set (ms (seq (r # rs)) s) = (\<Union>s1 \<in> set (ms r s). set (ms (seq rs) s1))"
  by (cases rs) simp_all

lemma set_ms_seq_append:
  "set (ms (seq (rs1 @ rs2)) s) = (\<Union>s1 \<in> set (ms (seq rs1) s). set (ms (seq rs2) s1))"
proof (induction rs1 arbitrary: s)
  case Nil
  show ?case by simp
next
  case (Cons r rs1)
  have "set (ms (seq ((r # rs1) @ rs2)) s)
          = (\<Union>s1 \<in> set (ms r s). set (ms (seq (rs1 @ rs2)) s1))"
    by (simp only: append_Cons set_ms_seq_Cons)
  also have "\<dots> = (\<Union>s1 \<in> set (ms r s). \<Union>s2 \<in> set (ms (seq rs1) s1). set (ms (seq rs2) s2))"
    by (simp only: Cons.IH)
  also have "\<dots> = (\<Union>s2 \<in> set (ms (seq (r # rs1)) s). set (ms (seq rs2) s2))"
    by (simp only: set_ms_seq_Cons UN_UN_flatten)
  finally show ?case .
qed

lemma groups_seq: "groups (seq rs) = concat (map groups rs)"
  by (induction rs rule: seq.induct) simp_all

lemma set_iter:
  "set (iter g m s) = insert s (\<Union>x \<in> set (filter (advanced s) (m s)). set (iter g m x))"
  by (subst iter.simps) (auto simp: Let_def)

lemma iter_rel:
  assumes step: "\<And>x x'. x' \<in> set (m x) \<Longrightarrow> R x x'"
    and refl: "\<And>x. R x x"
    and trans: "\<And>x y z. R x y \<Longrightarrow> R y z \<Longrightarrow> R x z"
  shows "s' \<in> set (iter g m s) \<Longrightarrow> R s s'"
  using step
proof (induction g m s rule: iter.induct)
  case (1 greedy m s)
  from "1.prems"(1) have "s' = s \<or> (\<exists>x \<in> set (filter (advanced s) (m s)). s' \<in> set (iter greedy m x))"
    by (subst (asm) set_iter) blast
  then show ?case
  proof
    assume "s' = s"
    then show ?thesis by (simp add: refl)
  next
    assume "\<exists>x \<in> set (filter (advanced s) (m s)). s' \<in> set (iter greedy m x)"
    then obtain x where x: "x \<in> set (filter (advanced s) (m s))" "s' \<in> set (iter greedy m x)"
      by blast
    from "1.IH" [OF x "1.prems"(2)] have "R x s'" .
    moreover from x(1) have "x \<in> set (m s)" by simp
    then have "R s x" by (rule "1.prems"(2))
    ultimately show ?thesis by (rule trans [rotated])
  qed
qed

lemma ms_frame:
  "s' \<in> set (ms r s) \<Longrightarrow> k \<notin> set (groups r) \<Longrightarrow> caps_of s' k = caps_of s k"
proof (induction r arbitrary: s s')
  case (Chr P)
  then show ?case by (cases s) (auto split: list.splits if_splits)
next
  case Bol
  then show ?case by (cases s) (auto split: if_splits)
next
  case Eol
  then show ?case by (cases s) (auto split: if_splits)
next
  case Eps
  then show ?case by simp
next
  case (Seq a b)
  from Seq.prems(1) obtain s1 where "s1 \<in> set (ms a s)" "s' \<in> set (ms b s1)" by auto
  with Seq.IH [of s1 s] Seq.IH(2) [of s' s1] Seq.prems(2) show ?case by simp
next
  case (Alt a b)
  from Alt.prems(1) have "s' \<in> set (ms a s) \<or> s' \<in> set (ms b s)" by auto
  with Alt.IH [of s' s] Alt.prems(2) show ?case by auto
next
  case (Star g a)
  have "caps_of x' k = caps_of x k" if "x' \<in> set (ms a (reset (groups a) x))" for x x'
    using Star.IH [OF that] Star.prems(2) by (simp add: caps_reset)
  from iter_rel [of "\<lambda>x. ms a (reset (groups a) x)" "\<lambda>x y. caps_of y k = caps_of x k", OF this]
  show ?case using Star.prems(1) by simp
next
  case (Plus g a)
  have st: "caps_of x' k = caps_of x k" if "x' \<in> set (ms a (reset (groups a) x))" for x x'
    using Plus.IH [OF that] Plus.prems(2) by (simp add: caps_reset)
  from Plus.prems(1) obtain x where x: "x \<in> set (ms a (reset (groups a) s))"
    "s' \<in> set (iter g (\<lambda>x. ms a (reset (groups a) x)) x)"
    by auto
  from iter_rel [of "\<lambda>x. ms a (reset (groups a) x)" "\<lambda>x y. caps_of y k = caps_of x k", OF st _ _ x(2)]
  have "caps_of s' k = caps_of x k" by simp
  with st [OF x(1)] show ?case by simp
next
  case (Opt g a)
  have st: "caps_of x' k = caps_of x k" if "x' \<in> set (ms a (reset (groups a) x))" for x x'
    using Opt.IH [OF that] Opt.prems(2) by (simp add: caps_reset)
  from Opt.prems(1) have "s' = s \<or> s' \<in> set (ms a (reset (groups a) s))"
    by (auto simp: Let_def split: if_splits)
  then show ?case using st [of s' s] by auto
next
  case (Group j a)
  then show ?case by (cases s) (auto simp: caps_of_def)
qed

lemma ms_suffix: "s' \<in> set (ms r s) \<Longrightarrow> suffix (unread s') (unread s)"
proof (induction r arbitrary: s s')
  case (Chr P)
  then show ?case by (cases s) (auto simp: suffix_Cons split: list.splits if_splits)
next
  case Bol
  then show ?case by (cases s) (auto split: if_splits)
next
  case Eol
  then show ?case by (cases s) (auto split: if_splits)
next
  case Eps
  then show ?case by simp
next
  case (Seq a b)
  from Seq.prems(1) obtain s1 where "s1 \<in> set (ms a s)" "s' \<in> set (ms b s1)" by auto
  with Seq.IH(1) [of s1 s] Seq.IH(2) [of s' s1] show ?case
    by (blast intro: suffix_order.trans)
next
  case (Alt a b)
  from Alt.prems(1) have "s' \<in> set (ms a s) \<or> s' \<in> set (ms b s)" by auto
  with Alt.IH [of s' s] show ?case by auto
next
  case (Star g a)
  have "suffix (unread x') (unread x)" if "x' \<in> set (ms a (reset (groups a) x))" for x x'
    using Star.IH [OF that] by simp
  from iter_rel [of "\<lambda>x. ms a (reset (groups a) x)" "\<lambda>x y. suffix (unread y) (unread x)", OF this]
  show ?case using Star.prems(1) by (auto intro: suffix_order.trans)
next
  case (Plus g a)
  have st: "suffix (unread x') (unread x)" if "x' \<in> set (ms a (reset (groups a) x))" for x x'
    using Plus.IH [OF that] by simp
  from Plus.prems(1) obtain x where x: "x \<in> set (ms a (reset (groups a) s))"
    "s' \<in> set (iter g (\<lambda>x. ms a (reset (groups a) x)) x)"
    by auto
  from iter_rel [of "\<lambda>x. ms a (reset (groups a) x)" "\<lambda>x y. suffix (unread y) (unread x)", OF st _ _ x(2)]
  have "suffix (unread s') (unread x)" by (auto intro: suffix_order.trans)
  with st [OF x(1)] show ?case by (auto intro: suffix_order.trans)
next
  case (Opt g a)
  have st: "suffix (unread x') (unread x)" if "x' \<in> set (ms a (reset (groups a) x))" for x x'
    using Opt.IH [OF that] by simp
  from Opt.prems(1) have "s' = s \<or> s' \<in> set (ms a (reset (groups a) s))"
    by (auto simp: Let_def split: if_splits)
  then show ?case using st [of s' s] by auto
next
  case (Group j a)
  then show ?case by (cases s) (auto simp: unread_def)
qed

lemma mem_Opt_Chr:
  assumes "s1 \<in> set (ms (Opt True (Chr P)) s)"
  shows "\<exists>b. unread s = b @ unread s1 \<and> (b = [] \<or> (\<exists>c. b = [c] \<and> P c))"
proof -
  obtain e u caps where s: "s = (e, u, caps)" by (cases s)
  from assms show ?thesis
    unfolding s ms_Opt_Chr by (cases u) (auto split: if_splits)
qed

lemma mem_Star_Chr:
  assumes "s2 \<in> set (ms (Star True (Chr P)) s1)"
  shows "\<exists>m. unread s1 = m @ unread s2 \<and> list_all P m"
proof -
  obtain e u caps where s: "s1 = (e, u, caps)" by (cases s1)
  from assms obtain k where k: "k \<le> length (takeWhile P u)" "s2 = (e + k, drop k u, caps)"
    unfolding s ms_Star_Chr by auto
  have "take k u = take k (takeWhile P u)"
    using k(1) by (metis append_eq_conv_conj append_take_drop_id take_all_iff takeWhile_dropWhile_id take_append
        diff_is_0_eq take_0 append_Nil2)
  moreover have "list_all P (take k (takeWhile P u))"
    by (metis in_set_takeD list_all_iff set_takeWhileD)
  ultimately have "list_all P (take k u)" by simp
  then show ?thesis unfolding s k(2) by (intro exI [of _ "take k u"]) simp
qed

lemma token_shape:
  assumes "s' \<in> set (ms token s)"
  shows "\<exists>w. unread s = w @ unread s' \<and> tokenish w"
proof -
  from assms obtain s1 s2 where
    1: "s1 \<in> set (ms (Opt True (Chr is_bang)) s)" and
    2: "s2 \<in> set (ms (Star True (Chr is_word)) s1)" and
    3: "s' \<in> set (ms (Opt True (Chr is_bang)) s2)"
    unfolding token_def by (auto simp del: ms.simps(7,9) simp add: set_ms_seq_Cons)
  from mem_Opt_Chr [OF 1] obtain b1 where
    b1: "unread s = b1 @ unread s1" "b1 = [] \<or> b1 = ''!''" by (auto simp: is_bang_def)
  from mem_Star_Chr [OF 2] obtain m where
    m: "unread s1 = m @ unread s2" "list_all is_word m" by blast
  from mem_Opt_Chr [OF 3] obtain b2 where
    b2: "unread s2 = b2 @ unread s'" "b2 = [] \<or> b2 = ''!''" by (auto simp: is_bang_def)
  have "unread s = (b1 @ m @ b2) @ unread s'" using b1(1) m(1) b2(1) by simp
  moreover have "tokenish (b1 @ m @ b2)" using b1(2) m(2) b2(2) unfolding tokenish_def by blast
  ultimately show ?thesis by blast
qed

lemma group_token:
  assumes "s' \<in> set (ms (Group k token) s)"
  shows "\<exists>w. tokenish w \<and> caps_of s' k = Some w \<and> unread s = w @ unread s'"
proof -
  from assms obtain e' u' caps' where
    x: "(e', u', caps') \<in> set (ms token s)" and
    s': "s' = (e', u', caps'(k \<mapsto> take (length (unread s) - length u') (unread s)))"
    by auto
  from token_shape [OF x] obtain w where w: "unread s = w @ u'" "tokenish w" by auto
  then show ?thesis unfolding s' by (intro exI [of _ w]) simp
qed

lemma REGEX_split:
  "REGEX = seq ([Bol, blanks] @ [Group 1 token] @
                [blanks, Chr is_shaft, blanks, Chr is_head, blanks,
                 Star True (Group 2 (Chr is_period)), blanks] @ [Group 3 token] @ [blanks, Eol])"
  by (simp add: REGEX_def)

lemma set_ms_seq_single: "set (ms (seq [r]) s) = set (ms r s)"
  by simp

lemma REGEX_captures:
  assumes "sf \<in> set (ms REGEX s0)"
  shows "\<exists>w1 w3. tokenish w1 \<and> tokenish w3 \<and> caps_of sf 1 = Some w1 \<and> caps_of sf 3 = Some w3"
proof -
  let ?mid = "[blanks, Chr is_shaft, blanks, Chr is_head, blanks,
               Star True (Group 2 (Chr is_period)), blanks]"
  from assms obtain sa sb sc sd where
    b: "sb \<in> set (ms (Group 1 token) sa)" and
    c: "sc \<in> set (ms (seq ?mid) sb)" and
    d: "sd \<in> set (ms (Group 3 token) sc)" and
    f: "sf \<in> set (ms (seq [blanks, Eol]) sd)"
    unfolding REGEX_split set_ms_seq_append set_ms_seq_single by blast
  from group_token [OF b] obtain w1 where w1: "tokenish w1" "caps_of sb 1 = Some w1" by blast
  from group_token [OF d] obtain w3 where w3: "tokenish w3" "caps_of sd 3 = Some w3" by blast
  have "caps_of sc 1 = caps_of sb 1"
    by (rule ms_frame [OF c]) (simp add: groups_seq blanks_def)
  moreover have "caps_of sd 1 = caps_of sc 1"
    by (rule ms_frame [OF d]) (simp add: token_def)
  moreover have "caps_of sf 1 = caps_of sd 1" "caps_of sf 3 = caps_of sd 3"
    by (rule ms_frame [OF f], simp add: groups_seq blanks_def)+
  ultimately show ?thesis using w1 w3 by auto
qed

lemma exec_from_mem:
  "exec_from r i u = Some (j, s) \<Longrightarrow> \<exists>u'. s \<in> set (ms r (j, u', Map.empty))"
proof (induction u arbitrary: i)
  case Nil
  then obtain t where "ms r (i, [], Map.empty) = s # t" "j = i"
    by (auto split: list.splits)
  then show ?case by (intro exI [of _ "[]"]) simp
next
  case (Cons c u)
  show ?case
  proof (cases "ms r (i, c # u, Map.empty)")
    case Nil
    with Cons.prems have "exec_from r (Suc i) u = Some (j, s)" by simp
    then show ?thesis by (rule Cons.IH)
  next
    case (Cons x xs)
    with Cons.prems have "j = i" "s = x" by simp_all
    with Cons show ?thesis by (intro exI [of _ "c # u"]) simp
  qed
qed

lemma clean_tokenish:
  assumes "tokenish w"
  shows "replace (replace w ''!'' []) ''!'' [] = filter (\<lambda>c. c \<noteq> CHR ''!'') w"
    and "list_all is_word (filter (\<lambda>c. c \<noteq> CHR ''!'') w)"
proof -
  from assms obtain b1 m b2 where w: "w = b1 @ m @ b2" and b1: "b1 = [] \<or> b1 = ''!''"
    and m: "list_all is_word m" and b2: "b2 = [] \<or> b2 = ''!''"
    unfolding tokenish_def by blast
  have nm: "CHR ''!'' \<notin> set m" using m by (auto simp: list_all_iff is_word_def)
  then have fm: "filter (\<lambda>c. c \<noteq> CHR ''!'') m = m" by (auto simp: filter_id_conv)
  have f: "filter (\<lambda>c. c \<noteq> CHR ''!'') w = m" using b1 b2 fm unfolding w by auto
  have r: "remove1 CHR ''!'' m = m" using nm by (simp add: remove1_idem)
  have "remove1 CHR ''!'' (remove1 CHR ''!'' w) = m"
    using b1 b2 nm r unfolding w by (auto simp: remove1_append)
  then show "replace (replace w ''!'' []) ''!'' [] = filter (\<lambda>c. c \<noteq> CHR ''!'') w"
    by (simp add: replace_remove1 f)
  show "list_all is_word (filter (\<lambda>c. c \<noteq> CHR ''!'') w)" using m f by simp
qed

lemma validated_tokenish: "validated w \<Longrightarrow> tokenish w"
  unfolding validated_def using token_shape [of _ "(0, w, Map.empty)"] by force

lemma compile_sound:
  assumes "compile text = Inr r"
  shows "\<exists>i e u compiled t1 t3.
           exec REGEX text = Some (i, e, u, compiled) \<and>
           compiled 1 = Some t1 \<and> compiled 3 = Some t3 \<and> tokenish t1 \<and> tokenish t3 \<and>
           r = Statement t1 t3 (case compiled 2 of None \<Rightarrow> False | Some d \<Rightarrow> d \<noteq> [])"
proof -
  from assms obtain i e u compiled where ex: "exec REGEX text = Some (i, e, u, compiled)"
    by (auto simp: compile_def split: option.splits)
  then obtain u' where "(e, u, compiled) \<in> set (ms REGEX (i, u', Map.empty))"
    unfolding exec_def by (blast dest: exec_from_mem)
  from REGEX_captures [OF this] obtain t1 t3 where
    t: "tokenish t1" "tokenish t3" "compiled 1 = Some t1" "compiled 3 = Some t3" by auto
  with assms ex have "r = Statement t1 t3 (case compiled 2 of None \<Rightarrow> False | Some d \<Rightarrow> d \<noteq> [])"
    by (auto simp: compile_def split: if_splits)
  with ex t show ?thesis by blast
qed

lemma Statement_tokenish:
  assumes "tokenish a" and "tokenish b"
  shows "Statement a b c = \<lparr>lhs = filter (\<lambda>c. c \<noteq> CHR ''!'') a,
                            rhs = filter (\<lambda>c. c \<noteq> CHR ''!'') b, closing = c\<rparr>"
  by (simp add: Statement_def setFrom_def setTo_def clean_tokenish(1) [OF assms(1)]
        clean_tokenish(1) [OF assms(2)])

subsection \<open>The texts that the pattern of a statement matches\<close>

lemma in_ms_Star_Chr:
  assumes "list_all P w"
  shows "(e + length w, v, caps) \<in> set (ms (Star True (Chr P)) (e, w @ v, caps))"
proof -
  have "takeWhile P (w @ v) = w @ takeWhile P v"
    using assms by (simp add: list_all_iff takeWhile_append2)
  then have "length w \<in> set (rev [0..<Suc (length (takeWhile P (w @ v)))])"
    by (simp del: upt_Suc)
  then show ?thesis
    unfolding ms_Star_Chr set_map by (intro image_eqI [where x = "length w"]) simp_all
qed

lemma in_ms_blanks:
  "list_all is_space w \<Longrightarrow> (e + length w, v, caps) \<in> set (ms blanks (e, w @ v, caps))"
  unfolding blanks_def by (rule in_ms_Star_Chr)

lemma in_ms_Opt_skip: "(e, u, caps) \<in> set (ms (Opt True (Chr P)) (e, u, caps))"
  unfolding ms_Opt_Chr by (cases u) auto

lemma in_ms_Opt_take: "P c \<Longrightarrow> (Suc e, cs, caps) \<in> set (ms (Opt True (Chr P)) (e, c # cs, caps))"
  unfolding ms_Opt_Chr by simp

lemma in_ms_Opt_bang:
  "b = [] \<or> b = ''!'' \<Longrightarrow>
   (e + length b, v, caps) \<in> set (ms (Opt True (Chr is_bang)) (e, b @ v, caps))"
  using in_ms_Opt_skip [of e v caps is_bang] in_ms_Opt_take [of is_bang "CHR ''!''" e v caps]
  by (auto simp: is_bang_def simp del: ms.simps)

lemma in_ms_token:
  assumes "tokenish w"
  shows "(e + length w, v, caps) \<in> set (ms token (e, w @ v, caps))"
proof -
  from assms obtain b1 m b2 where w: "w = b1 @ m @ b2" and b1: "b1 = [] \<or> b1 = ''!''"
    and m: "list_all is_word m" and b2: "b2 = [] \<or> b2 = ''!''"
    unfolding tokenish_def by blast
  have 1: "(e + length b1, m @ b2 @ v, caps) \<in> set (ms (Opt True (Chr is_bang)) (e, w @ v, caps))"
    using in_ms_Opt_bang [OF b1, of e "m @ b2 @ v" caps] unfolding w by simp
  have 2: "(e + length b1 + length m, b2 @ v, caps)
             \<in> set (ms (Star True (Chr is_word)) (e + length b1, m @ b2 @ v, caps))"
    by (rule in_ms_Star_Chr [OF m])
  have 3: "(e + length b1 + length m + length b2, v, caps)
             \<in> set (ms (Opt True (Chr is_bang)) (e + length b1 + length m, b2 @ v, caps))"
    by (rule in_ms_Opt_bang [OF b2])
  have "(e + length b1 + length m + length b2, v, caps) \<in> set (ms token (e, w @ v, caps))"
    unfolding token_def set_ms_seq_Cons using 1 2 3 by (simp del: ms.simps(1,7,9)) blast
  then show ?thesis unfolding w by (simp add: add.assoc del: ms.simps)
qed

lemma in_ms_group_token:
  assumes "tokenish w"
  shows "(e + length w, v, caps(k \<mapsto> w)) \<in> set (ms (Group k token) (e, w @ v, caps))"
  using in_ms_token [OF assms, of e v caps] by (force simp del: ms.simps(1-9))

lemma in_ms_periods:
  "list_all is_period d \<Longrightarrow>
   \<exists>caps'. (e + length d, v, caps') \<in> set (ms (Star True (Group k (Chr is_period))) (e, d @ v, caps))"
proof (induction d arbitrary: e caps)
  case Nil
  show ?case by (subst ms_Star_unfold) (auto simp del: ms.simps)
next
  case (Cons c d)
  from Cons.prems have c: "c = CHR ''.''" by (simp add: is_period_def)
  from Cons.prems have d: "list_all is_period d" by simp
  let ?R = "Star True (Group k (Chr is_period))"
  from Cons.IH [OF d, of "Suc e" "caps(k \<mapsto> ''.'')"] obtain caps' where
    "(Suc e + length d, v, caps') \<in> set (ms ?R (Suc e, d @ v, caps(k \<mapsto> ''.'')))" by blast
  then have "(e + length (c # d), v, caps') \<in> set (ms ?R (e, CHR ''.'' # d @ v, caps))"
    by (simp only: ms_periods_step set_append Un_iff length_Cons add_Suc_right add_Suc simp_thms)
  then show ?case unfolding c by (simp only: append_Cons) blast
qed

lemma in_ms_Chr: "P c \<Longrightarrow> (Suc e, v, caps) \<in> set (ms (Chr P) (e, c # v, caps))"
  by simp

lemma REGEX_complete:
  assumes "well_formed text"
  shows "ms REGEX (0, text, Map.empty) \<noteq> []"
proof -
  from assms obtain w1 L w2 a w3 w4 d w5 R w6 where
    t: "text = w1 @ L @ w2 @ [a] @ w3 @ ''>'' @ w4 @ d @ w5 @ R @ w6" and
    w1: "list_all is_space w1" and L: "tokenish L" and w2: "list_all is_space w2" and
    a: "is_shaft a" and w3: "list_all is_space w3" and w4: "list_all is_space w4" and
    d: "list_all is_period d" and w5: "list_all is_space w5" and R: "tokenish R" and
    w6: "list_all is_space w6"
    unfolding well_formed_def by blast
  let ?c1 = "[1 \<mapsto> L]"
  let ?e1 = "0 + length w1"
  let ?e2 = "?e1 + length L"
  let ?e3 = "?e2 + length w2"
  let ?e4 = "Suc ?e3 + length w3"
  let ?e5 = "Suc ?e4 + length w4"
  let ?e6 = "?e5 + length d"
  let ?e7 = "?e6 + length w5"
  let ?e8 = "?e7 + length R"
  let ?e9 = "?e8 + length w6"
  have 1: "(0, text, Map.empty) \<in> set (ms Bol (0, text, Map.empty))" by simp
  have 2: "(?e1, L @ w2 @ [a] @ w3 @ ''>'' @ w4 @ d @ w5 @ R @ w6, Map.empty)
             \<in> set (ms blanks (0, text, Map.empty))"
    unfolding t by (rule in_ms_blanks [OF w1])
  have 3: "(?e2, w2 @ [a] @ w3 @ ''>'' @ w4 @ d @ w5 @ R @ w6, ?c1)
             \<in> set (ms (Group 1 token) (?e1, L @ w2 @ [a] @ w3 @ ''>'' @ w4 @ d @ w5 @ R @ w6, Map.empty))"
    by (rule in_ms_group_token [OF L])
  have 4: "(?e3, [a] @ w3 @ ''>'' @ w4 @ d @ w5 @ R @ w6, ?c1)
             \<in> set (ms blanks (?e2, w2 @ [a] @ w3 @ ''>'' @ w4 @ d @ w5 @ R @ w6, ?c1))"
    by (rule in_ms_blanks [OF w2])
  have 5: "(Suc ?e3, w3 @ ''>'' @ w4 @ d @ w5 @ R @ w6, ?c1)
             \<in> set (ms (Chr is_shaft) (?e3, [a] @ w3 @ ''>'' @ w4 @ d @ w5 @ R @ w6, ?c1))"
    using a by simp
  have 6: "(?e4, ''>'' @ w4 @ d @ w5 @ R @ w6, ?c1)
             \<in> set (ms blanks (Suc ?e3, w3 @ ''>'' @ w4 @ d @ w5 @ R @ w6, ?c1))"
    by (rule in_ms_blanks [OF w3])
  have 7: "(Suc ?e4, w4 @ d @ w5 @ R @ w6, ?c1)
             \<in> set (ms (Chr is_head) (?e4, ''>'' @ w4 @ d @ w5 @ R @ w6, ?c1))"
    by (simp add: is_head_def)
  have 8: "(?e5, d @ w5 @ R @ w6, ?c1)
             \<in> set (ms blanks (Suc ?e4, w4 @ d @ w5 @ R @ w6, ?c1))"
    by (rule in_ms_blanks [OF w4])
  from in_ms_periods [OF d, of ?e5 "w5 @ R @ w6" 2 ?c1] obtain c2 where
    9: "(?e6, w5 @ R @ w6, c2)
             \<in> set (ms (Star True (Group 2 (Chr is_period))) (?e5, d @ w5 @ R @ w6, ?c1))"
    by blast
  have 10: "(?e7, R @ w6, c2) \<in> set (ms blanks (?e6, w5 @ R @ w6, c2))"
    by (rule in_ms_blanks [OF w5])
  have 11: "(?e8, w6, c2(3 \<mapsto> R)) \<in> set (ms (Group 3 token) (?e7, R @ w6, c2))"
    by (rule in_ms_group_token [OF R])
  have 12: "(?e9, [], c2(3 \<mapsto> R)) \<in> set (ms blanks (?e8, w6, c2(3 \<mapsto> R)))"
    using in_ms_blanks [OF w6, of ?e8 "[]"] by simp
  have 13: "(?e9, [], c2(3 \<mapsto> R)) \<in> set (ms Eol (?e9, [], c2(3 \<mapsto> R)))" by simp
  have "(?e9, [], c2(3 \<mapsto> R)) \<in> set (ms REGEX (0, text, Map.empty))"
    unfolding REGEX_def set_ms_seq_Cons
    using 1 2 3 4 5 6 7 8 9 10 11 12 13 by (simp only: seq.simps ms.simps(4) list.set UN_iff singletonI) blast
  then show ?thesis by auto
qed

lemma mem_Chr:
  assumes "s' \<in> set (ms (Chr P) s)"
  shows "\<exists>c. unread s = c # unread s' \<and> P c"
proof -
  obtain e u caps where s: "s = (e, u, caps)" by (cases s)
  from assms show ?thesis unfolding s by (cases u) (auto split: if_splits)
qed

lemma mem_Bol: "s' \<in> set (ms Bol s) \<Longrightarrow> s' = s \<and> fst s = 0"
  by (cases s) (auto split: if_splits)

lemma mem_Eol: "s' \<in> set (ms Eol s) \<Longrightarrow> s' = s \<and> unread s = []"
  by (cases s) (auto split: if_splits)

lemma mem_Group:
  "s' \<in> set (ms (Group k a) s) \<Longrightarrow> \<exists>y \<in> set (ms a s). unread s' = unread y"
  by (force simp del: ms.simps(1-9) simp add: unread_def)

lemma mem_periods:
  assumes "s' \<in> set (ms (Star True (Group k (Chr P))) s)"
  shows "\<exists>d. unread s = d @ unread s' \<and> list_all P d"
proof -
  let ?m = "\<lambda>x. ms (Group k (Chr P)) (reset (groups (Group k (Chr P))) x)"
  let ?R = "\<lambda>x y. \<exists>d. unread x = d @ unread y \<and> list_all P d"
  have step: "?R x x'" if "x' \<in> set (?m x)" for x x'
  proof -
    from mem_Group [OF that] obtain y where
      y: "y \<in> set (ms (Chr P) (reset (groups (Group k (Chr P))) x))"
      and u: "unread x' = unread y"
      by blast
    from mem_Chr [OF y] obtain c where "unread x = c # unread y" "P c" by auto
    with u show ?thesis by (intro exI [of _ "[c]"]) simp
  qed
  have refl: "?R x x" for x by simp
  have trans: "?R x z" if "?R x y" "?R y z" for x y z
  proof -
    from that obtain d1 d2 where "unread x = d1 @ unread y" "list_all P d1"
      "unread y = d2 @ unread z" "list_all P d2" by blast
    then show ?thesis by (intro exI [of _ "d1 @ d2"]) simp
  qed
  from assms have "s' \<in> set (iter True ?m s)" by simp
  from iter_rel [of ?m ?R, OF step refl trans this] show ?thesis .
qed

lemma REGEX_sound:
  assumes "sf \<in> set (ms REGEX s0)"
  shows "well_formed (unread s0) \<and> fst s0 = 0"
proof -
  from assms obtain s1 s2 s3 s4 s5 s6 s7 s8 s9 s10 s11 s12 where
    1: "s1 \<in> set (ms Bol s0)" and
    2: "s2 \<in> set (ms blanks s1)" and
    3: "s3 \<in> set (ms (Group 1 token) s2)" and
    4: "s4 \<in> set (ms blanks s3)" and
    5: "s5 \<in> set (ms (Chr is_shaft) s4)" and
    6: "s6 \<in> set (ms blanks s5)" and
    7: "s7 \<in> set (ms (Chr is_head) s6)" and
    8: "s8 \<in> set (ms blanks s7)" and
    9: "s9 \<in> set (ms (Star True (Group 2 (Chr is_period))) s8)" and
    10: "s10 \<in> set (ms blanks s9)" and
    11: "s11 \<in> set (ms (Group 3 token) s10)" and
    12: "s12 \<in> set (ms blanks s11)" and
    13: "sf \<in> set (ms Eol s12)"
    unfolding REGEX_def set_ms_seq_Cons
    by (simp only: seq.simps ms.simps(4) list.set UN_iff singleton_iff) blast
  from mem_Bol [OF 1] have b: "s1 = s0" "fst s0 = 0" by simp_all
  from mem_Star_Chr [OF 2 [unfolded blanks_def]] obtain w1 where
    w1: "unread s1 = w1 @ unread s2" "list_all is_space w1" by blast
  from group_token [OF 3] obtain L where L: "unread s2 = L @ unread s3" "tokenish L" by blast
  from mem_Star_Chr [OF 4 [unfolded blanks_def]] obtain w2 where
    w2: "unread s3 = w2 @ unread s4" "list_all is_space w2" by blast
  from mem_Chr [OF 5] obtain a where a: "unread s4 = a # unread s5" "is_shaft a" by blast
  from mem_Star_Chr [OF 6 [unfolded blanks_def]] obtain w3 where
    w3: "unread s5 = w3 @ unread s6" "list_all is_space w3" by blast
  from mem_Chr [OF 7] have h: "unread s6 = CHR ''>'' # unread s7" by (auto simp: is_head_def)
  from mem_Star_Chr [OF 8 [unfolded blanks_def]] obtain w4 where
    w4: "unread s7 = w4 @ unread s8" "list_all is_space w4" by blast
  from mem_periods [OF 9] obtain d where d: "unread s8 = d @ unread s9" "list_all is_period d"
    by blast
  from mem_Star_Chr [OF 10 [unfolded blanks_def]] obtain w5 where
    w5: "unread s9 = w5 @ unread s10" "list_all is_space w5" by blast
  from group_token [OF 11] obtain R where R: "unread s10 = R @ unread s11" "tokenish R" by blast
  from mem_Star_Chr [OF 12 [unfolded blanks_def]] obtain w6 where
    w6: "unread s11 = w6 @ unread s12" "list_all is_space w6" by blast
  from mem_Eol [OF 13] have e: "unread s12 = []" by simp
  have "unread s0 = w1 @ L @ w2 @ [a] @ w3 @ ''>'' @ w4 @ d @ w5 @ R @ w6"
    using b(1) w1(1) L(1) w2(1) a(1) w3(1) h w4(1) d(1) w5(1) R(1) w6(1) e by simp
  then have "well_formed (unread s0)"
    unfolding well_formed_def
    using w1(2) L(2) w2(2) a(2) w3(2) w4(2) d(2) w5(2) R(2) w6(2) by blast
  with b(2) show ?thesis by simp
qed

lemma exec_from_mem_at:
  "exec_from r i u = Some (j, s) \<Longrightarrow>
     \<exists>u'. suffix u' u \<and> j = i + (length u - length u') \<and> s \<in> set (ms r (j, u', Map.empty))"
proof (induction u arbitrary: i)
  case Nil
  then obtain t where "ms r (i, [], Map.empty) = s # t" "j = i"
    by (auto split: list.splits)
  then show ?case by (intro exI [of _ "[]"]) simp
next
  case (Cons c u)
  show ?case
  proof (cases "ms r (i, c # u, Map.empty)")
    case Nil
    with Cons.prems have "exec_from r (Suc i) u = Some (j, s)" by simp
    from Cons.IH [OF this] obtain u' where
      u': "suffix u' u" "j = Suc i + (length u - length u')" "s \<in> set (ms r (j, u', Map.empty))"
      by blast
    from u'(1) have "length u' \<le> length u" by (rule suffix_length_le)
    with u' show ?thesis by (intro exI [of _ u']) (auto simp: suffix_Cons)
  next
    case (Cons x xs)
    with Cons.prems have "j = i" "s = x" by simp_all
    with Cons show ?thesis by (intro exI [of _ "c # u"]) simp
  qed
qed

lemma exec_REGEX_iff: "exec REGEX text \<noteq> None \<longleftrightarrow> well_formed text"
proof
  assume "exec REGEX text \<noteq> None"
  then obtain j s where "exec_from REGEX 0 text = Some (j, s)" by (auto simp: exec_def)
  from exec_from_mem_at [OF this] obtain u' where
    u': "suffix u' text" "j = 0 + (length text - length u')" "s \<in> set (ms REGEX (j, u', Map.empty))"
    by blast
  from REGEX_sound [OF u'(3)] have wf: "well_formed u'" and "j = 0" by simp_all
  with u'(1,2) have "length u' = length text"
    using suffix_length_le [OF u'(1)] by simp
  with u'(1) have "u' = text" by (auto simp: suffix_def)
  with wf show "well_formed text" by simp
next
  assume "well_formed text"
  from REGEX_complete [OF this] show "exec REGEX text \<noteq> None"
    by (cases "text") (auto simp: exec_def split: list.splits)
qed

section \<open>Statements: compiling and rendering\<close>

text \<open>
  Claim C5. A rule built by \<^verbatim>\<open>compile\<close>, or by the constructor from validated components,
  is rendered by \<^verbatim>\<open>toString\<close> as a text that \<^verbatim>\<open>compile\<close> accepts and compiles to the same
  rule: same pattern, same replacement, same closing flag. The rendering writes \<^verbatim>\<open>!\<close> for an
  empty side, \<^verbatim>\<open> ->. \<close> between the sides of a closing rule and \<^verbatim>\<open> -> \<close> otherwise.
\<close>

theorem compile_toString:
  assumes "compile text = Inr r \<or> (validated a \<and> validated b \<and> r = Statement a b c)"
  shows "compile (toString r) = Inr r \<and>
         toString r = (if length (lhs r) < 1 then ''!'' else lhs r)
                      @ (if closing r then '' ->. '' else '' -> '')
                      @ (if length (rhs r) < 1 then ''!'' else rhs r)"
proof -
  have "list_all is_word (lhs r) \<and> list_all is_word (rhs r)"
    using assms
  proof
    assume "compile text = Inr r"
    from compile_sound [OF this] obtain t1 t3 d where
      "tokenish t1" "tokenish t3" "r = Statement t1 t3 d" by blast
    then show ?thesis
      by (simp add: Statement_tokenish clean_tokenish(2))
  next
    assume "validated a \<and> validated b \<and> r = Statement a b c"
    then have "tokenish a" "tokenish b" "r = Statement a b c"
      by (simp_all add: validated_tokenish)
    then show ?thesis
      by (simp add: Statement_tokenish clean_tokenish(2))
  qed
  then have "compile (toString r) = Inr r" by (simp add: compile_toString_words)
  then show ?thesis by (simp add: toString_def)
qed

theorem compile_toString_witness:
  "compile ''! =>. x'' = Inr \<lparr>lhs = [], rhs = ''x'', closing = True\<rparr> \<and>
   validated ''!a!'' \<and> validated ''!'' \<and>
   Statement ''!a!'' ''!'' False = \<lparr>lhs = ''a'', rhs = [], closing = False\<rparr> \<and>
   toString \<lparr>lhs = [], rhs = ''x'', closing = True\<rparr> = ''! ->. x'' \<and>
   compile ''! ->. x'' = Inr \<lparr>lhs = [], rhs = ''x'', closing = True\<rparr> \<and>
   compile ''a -> !'' = Inr \<lparr>lhs = ''a'', rhs = [], closing = False\<rparr>"
proof -
  let ?r = "\<lparr>lhs = [], rhs = ''x'', closing = True\<rparr>"
  let ?q = "\<lparr>lhs = ''a'', rhs = [], closing = False\<rparr>"
  have c: "compile ''! =>. x'' = Inr ?r" by code_simp
  have v: "validated ''!a!''" "validated ''!''" by code_simp+
  have s: "Statement ''!a!'' ''!'' False = ?q" by code_simp
  have t: "toString ?r = ''! ->. x''" "toString ?q = ''a -> !''" by code_simp+
  have h1: "compile ''! =>. x'' = Inr ?r \<or> (validated [] \<and> validated [] \<and> ?r = Statement [] [] False)"
    using c by (rule disjI1)
  have h2: "compile [] = Inr ?q \<or> (validated ''!a!'' \<and> validated ''!'' \<and> ?q = Statement ''!a!'' ''!'' False)"
    using v s by simp
  have 1: "compile ''! ->. x'' = Inr ?r"
    using compile_toString [OF h1] unfolding t by (rule conjunct1)
  have 2: "compile ''a -> !'' = Inr ?q"
    using compile_toString [OF h2] unfolding t by (rule conjunct1)
  from c v s t 1 2 show ?thesis by simp
qed

text \<open>
  Claim C7. When \<^verbatim>\<open>compile\<close> accepts a text, the pattern and the replacement it stores are
  the tokens captured for the two sides with every \<^verbatim>\<open>!\<close> removed; a token that is \<^verbatim>\<open>!\<close> alone
  is stored as the empty string. \<^verbatim>\<open>compile("! -> x")\<close> has the empty pattern and the
  replacement \<^verbatim>\<open>x\<close>; \<^verbatim>\<open>compile("x -> !")\<close> has the empty replacement.
\<close>

theorem compile_strips_marker:
  "(compile text = Inr r \<longrightarrow>
      (\<exists>i e u compiled t1 t3.
          exec REGEX text = Some (i, e, u, compiled) \<and>
          compiled 1 = Some t1 \<and> compiled 3 = Some t3 \<and>
          lhs r = filter (\<lambda>c. c \<noteq> CHR ''!'') t1 \<and>
          rhs r = filter (\<lambda>c. c \<noteq> CHR ''!'') t3 \<and>
          (t1 = ''!'' \<longrightarrow> lhs r = []) \<and> (t3 = ''!'' \<longrightarrow> rhs r = []))) \<and>
   compile ''! -> x'' = Inr \<lparr>lhs = [], rhs = ''x'', closing = False\<rparr> \<and>
   compile ''x -> !'' = Inr \<lparr>lhs = ''x'', rhs = [], closing = False\<rparr>"
proof (intro conjI impI)
  assume "compile text = Inr r"
  from compile_sound [OF this] obtain i e u compiled t1 t3 where
    *: "exec REGEX text = Some (i, e, u, compiled)" "compiled 1 = Some t1" "compiled 3 = Some t3"
       "tokenish t1" "tokenish t3"
       "r = Statement t1 t3 (case compiled 2 of None \<Rightarrow> False | Some d \<Rightarrow> d \<noteq> [])"
    by blast
  have "lhs r = filter (\<lambda>c. c \<noteq> CHR ''!'') t1" "rhs r = filter (\<lambda>c. c \<noteq> CHR ''!'') t3"
    using * by (simp_all add: Statement_tokenish)
  moreover from this have "t1 = ''!'' \<longrightarrow> lhs r = []" "t3 = ''!'' \<longrightarrow> rhs r = []" by auto
  ultimately show "\<exists>i e u compiled t1 t3.
          exec REGEX text = Some (i, e, u, compiled) \<and>
          compiled 1 = Some t1 \<and> compiled 3 = Some t3 \<and>
          lhs r = filter (\<lambda>c. c \<noteq> CHR ''!'') t1 \<and>
          rhs r = filter (\<lambda>c. c \<noteq> CHR ''!'') t3 \<and>
          (t1 = ''!'' \<longrightarrow> lhs r = []) \<and> (t3 = ''!'' \<longrightarrow> rhs r = [])"
    using *(1-3) by blast
next
  show "compile ''! -> x'' = Inr \<lparr>lhs = [], rhs = ''x'', closing = False\<rparr>" by code_simp
next
  show "compile ''x -> !'' = Inr \<lparr>lhs = ''x'', rhs = [], closing = False\<rparr>" by code_simp
qed

theorem compile_strips_marker_witness:
  "compile ''!a! -> b!'' = Inr \<lparr>lhs = ''a'', rhs = ''b'', closing = False\<rparr> \<and>
   (\<exists>t1 t3. ''a'' = filter (\<lambda>c. c \<noteq> CHR ''!'') t1 \<and> ''b'' = filter (\<lambda>c. c \<noteq> CHR ''!'') t3)"
proof -
  have c: "compile ''!a! -> b!'' = Inr \<lparr>lhs = ''a'', rhs = ''b'', closing = False\<rparr>" by code_simp
  from compile_strips_marker [of "''!a! -> b!''" "\<lparr>lhs = ''a'', rhs = ''b'', closing = False\<rparr>"] c
  have "\<exists>t1 t3. ''a'' = filter (\<lambda>c. c \<noteq> CHR ''!'') t1 \<and> ''b'' = filter (\<lambda>c. c \<noteq> CHR ''!'') t3"
    by (simp del: filter.simps filter_eq_Cons_iff Cons_eq_filter_iff) blast
  with c show ?thesis by simp
qed

subsection \<open>The texts that compile rejects\<close>

text \<open>
  Claim C6, as stated, fails. \<^verbatim>\<open>compile\<close> accepts \<^verbatim>\<open>a ->.. b\<close>, with two dots after the arrow,
  and \<^verbatim>\<open>a - > b\<close>, with white space inside the arrow; the grammar of the claim matches
  neither. It rejects \<^verbatim>\<open>a.b -> c\<close>, whose left side is a run of characters that are not white
  space, so that the grammar of the claim matches it, with sides neither missing nor \<^verbatim>\<open>!!\<close>.
\<close>

theorem compile_accepts_outside_grammar:
  "spec_rejects ''a ->.. b'' \<and>
   compile ''a ->.. b'' = Inr \<lparr>lhs = ''a'', rhs = ''b'', closing = True\<rparr> \<and>
   spec_rejects ''a - > b'' \<and>
   compile ''a - > b'' = Inr \<lparr>lhs = ''a'', rhs = ''b'', closing = False\<rparr> \<and>
   \<not> spec_rejects ''a.b -> c'' \<and>
   compile ''a.b -> c'' = Inl InvalidStatement"
proof -
  have "spec_rejects ''a ->.. b''" by code_simp
  moreover have "compile ''a ->.. b'' = Inr \<lparr>lhs = ''a'', rhs = ''b'', closing = True\<rparr>"
    by code_simp
  moreover have "spec_rejects ''a - > b''" by code_simp
  moreover have "compile ''a - > b'' = Inr \<lparr>lhs = ''a'', rhs = ''b'', closing = False\<rparr>"
    by code_simp
  moreover have "\<not> spec_rejects ''a.b -> c''" by code_simp
  moreover have "compile ''a.b -> c'' = Inl InvalidStatement" by code_simp
  ultimately show ?thesis by simp
qed

lemma compile_no_match: "exec REGEX str = None \<Longrightarrow> compile str = Inl InvalidStatement"
  by (simp add: compile_def)

lemma compile_match:
  assumes "exec REGEX str = Some (i, e, u, compiled)"
  shows "\<exists>t1 t3. compiled 1 = Some t1 \<and> compiled 3 = Some t3 \<and>
           compile str =
             (if t1 = [] then Inl NoLHS
              else if t3 = [] then Inl NoRHS
              else if t1 = ''!!'' then Inl LHSTwoEmptyWords
              else if t3 = ''!!'' then Inl RHSTwoEmptyWords
              else Inr (Statement t1 t3 (case compiled 2 of None \<Rightarrow> False | Some d \<Rightarrow> d \<noteq> [])))"
proof -
  from assms obtain u' where "(e, u, compiled) \<in> set (ms REGEX (i, u', Map.empty))"
    unfolding exec_def by (blast dest: exec_from_mem)
  from REGEX_captures [OF this] obtain t1 t3 where
    t: "compiled 1 = Some t1" "compiled 3 = Some t3" by auto
  with assms show ?thesis by (simp add: compile_def)
qed

text \<open>
  Claim C6, amended. \<^verbatim>\<open>compile\<close> fails exactly when the text is not of the form: white
  space, token, white space, \<^verbatim>\<open>=\<close> or \<^verbatim>\<open>-\<close>, white space, \<^verbatim>\<open>>\<close>, white space, any number of
  dots, white space, token, white space (a token being a run of characters other than white
  space, \<^verbatim>\<open>!\<close> and \<^verbatim>\<open>.\<close>, with at most one \<^verbatim>\<open>!\<close> before and after it), or when a side
  captured by the match that the pattern finds is empty or is \<^verbatim>\<open>!!\<close>. The five texts of the
  claim all fail. Any number of dots may follow the arrow, and the rule is closing exactly
  when there is at least one; white space may stand between the two characters of the
  arrow.
\<close>

theorem compile_fails_iff:
  "((\<exists>err. compile str = Inl err) \<longleftrightarrow>
      \<not> well_formed str \<or>
      (\<exists>i e u compiled. exec REGEX str = Some (i, e, u, compiled) \<and>
         (compiled 1 = Some [] \<or> compiled 3 = Some [] \<or>
          compiled 1 = Some ''!!'' \<or> compiled 3 = Some ''!!''))) \<and>
   compile ''invalid statement'' = Inl InvalidStatement \<and>
   compile ''a -> '' = Inl NoRHS \<and>
   compile '' -> b'' = Inl NoLHS \<and>
   compile ''!! -> b'' = Inl LHSTwoEmptyWords \<and>
   compile ''a -> !!'' = Inl RHSTwoEmptyWords \<and>
   compile (''a ->'' @ replicate n CHR ''.'' @ '' b'') = Inr \<lparr>lhs = ''a'', rhs = ''b'', closing = (0 < n)\<rparr> \<and>
   compile ''a - > b'' = Inr \<lparr>lhs = ''a'', rhs = ''b'', closing = False\<rparr>"
proof (intro conjI)
  show "(\<exists>err. compile str = Inl err) \<longleftrightarrow>
      \<not> well_formed str \<or>
      (\<exists>i e u compiled. exec REGEX str = Some (i, e, u, compiled) \<and>
         (compiled 1 = Some [] \<or> compiled 3 = Some [] \<or>
          compiled 1 = Some ''!!'' \<or> compiled 3 = Some ''!!''))"
  proof (cases "exec REGEX str")
    case None
    then have "\<not> well_formed str" using exec_REGEX_iff [of str] by simp
    with None show ?thesis by (simp add: compile_no_match)
  next
    case (Some m)
    obtain i e u compiled where m: "m = (i, e, u, compiled)" by (cases m)
    have wf: "well_formed str" using Some exec_REGEX_iff [of str] by simp
    from compile_match [OF Some [unfolded m]] obtain t1 t3 where
      "compiled 1 = Some t1" "compiled 3 = Some t3"
      "compile str =
             (if t1 = [] then Inl NoLHS
              else if t3 = [] then Inl NoRHS
              else if t1 = ''!!'' then Inl LHSTwoEmptyWords
              else if t3 = ''!!'' then Inl RHSTwoEmptyWords
              else Inr (Statement t1 t3 (case compiled 2 of None \<Rightarrow> False | Some d \<Rightarrow> d \<noteq> [])))"
      by blast
    with Some m wf show ?thesis by auto
  qed
next
  show "compile ''invalid statement'' = Inl InvalidStatement" by code_simp
next
  show "compile ''a -> '' = Inl NoRHS" by code_simp
next
  show "compile '' -> b'' = Inl NoLHS" by code_simp
next
  show "compile ''!! -> b'' = Inl LHSTwoEmptyWords" by code_simp
next
  show "compile ''a -> !!'' = Inl RHSTwoEmptyWords" by code_simp
next
  have w: "list_all is_word ''a''" "list_all is_word ''b''"
    by (simp_all add: is_word_def is_space_def)
  show "compile (''a ->'' @ replicate n CHR ''.'' @ '' b'')
          = Inr \<lparr>lhs = ''a'', rhs = ''b'', closing = (0 < n)\<rparr>"
  proof (cases n)
    case 0
    with compile_render_open [OF w] show ?thesis by (simp add: render_def)
  next
    case (Suc k)
    with compile_render_closing [OF w, of k] show ?thesis by (simp add: render_def)
  qed
next
  show "compile ''a - > b'' = Inr \<lparr>lhs = ''a'', rhs = ''b'', closing = False\<rparr>" by code_simp
qed

theorem compile_fails_iff_witness:
  "well_formed ''a -> '' \<and> compile ''a -> '' = Inl NoRHS \<and>
   (\<exists>i e u compiled. exec REGEX ''a -> '' = Some (i, e, u, compiled) \<and>
      (compiled 1 = Some [] \<or> compiled 3 = Some [] \<or>
       compiled 1 = Some ''!!'' \<or> compiled 3 = Some ''!!''))"
proof -
  have m: "exec REGEX ''a -> '' \<noteq> None" by code_simp
  then have wf: "well_formed ''a -> ''" by (simp only: exec_REGEX_iff)
  have c: "compile ''a -> '' = Inl NoRHS" by code_simp
  from compile_fails_iff [of "''a -> ''" 0] c wf
  have "\<exists>i e u compiled. exec REGEX ''a -> '' = Some (i, e, u, compiled) \<and>
      (compiled 1 = Some [] \<or> compiled 3 = Some [] \<or>
       compiled 1 = Some ''!!'' \<or> compiled 3 = Some ''!!'')"
    by blast
  with wf c show ?thesis by blast
qed

section \<open>Searching and replacing\<close>

subsection \<open>A plain pattern is searched as a substring\<close>

lemma parse_plain: "plain p \<Longrightarrow> parse st p = Some [flush st @ map atom p]"
proof (induction p arbitrary: st)
  case Nil
  show ?case by simp
next
  case (Cons c p)
  then have c: "\<not> syntax_char c" and p: "plain p" by (simp_all add: plain_def)
  from c have "\<not> is_quantifier c" "c \<noteq> CHR ''|''" "c \<noteq> CHR ''^''" "c \<noteq> CHR ''$''"
    by (auto simp: syntax_char_def)
  then show ?case by (simp add: Cons.IH [OF p])
qed

lemma RegExp_plain: "plain p \<Longrightarrow> RegExp p = Inr (literal p)"
proof -
  assume p: "plain p"
  then have "\<not> (\<exists>c \<in> set p. outside c)" by (auto simp: plain_def syntax_char_def)
  moreover have "map atom p = map (\<lambda>c. Chr (\<lambda>x. x = c)) p"
    using p by (auto simp: plain_def syntax_char_def atom_def)
  ultimately show ?thesis
    by (simp only: RegExp_def parse_plain [OF p] literal_def flush.simps append_Nil
          if_False option.case list.map disjunction.simps)
qed

lemma ms_seq_Cons: "ms (seq (r # rs)) s = concat (map (ms (seq rs)) (ms r s))"
  by (cases rs) (simp_all add: concat_map_singleton)

lemma ms_literal:
  "ms (literal p) (e, u, caps) =
     (if prefix p u then [(e + length p, drop (length p) u, caps)] else [])"
proof (induction p arbitrary: e u)
  case Nil
  show ?case by (simp add: literal_def)
next
  case (Cons c p)
  have "ms (literal (c # p)) (e, u, caps)
          = concat (map (ms (literal p)) (ms (Chr (\<lambda>x. x = c)) (e, u, caps)))"
    unfolding literal_def by (simp only: list.map ms_seq_Cons)
  then show ?case
    by (cases u) (simp_all add: Cons.IH)
qed

lemma exec_from_literal:
  "exec_from (literal p) i u =
     map_option (\<lambda>k. (i + k, i + k + length p, drop (k + length p) u, Map.empty)) (index_of p u)"
proof (induction u arbitrary: i)
  case Nil
  show ?case by (simp add: ms_literal)
next
  case (Cons c u)
  show ?case
  proof (cases "prefix p (c # u)")
    case True
    then show ?thesis by (subst exec_from.simps) (simp add: ms_literal del: exec_from.simps)
  next
    case False
    then show ?thesis
      by (subst exec_from.simps)
         (simp add: ms_literal Cons.IH option.map_comp comp_def del: exec_from.simps)
  qed
qed

lemma search_plain:
  "plain p \<Longrightarrow> search str p = Inr (case index_of p str of None \<Rightarrow> - 1 | Some k \<Rightarrow> int k)"
  by (simp add: search_def RegExp_plain exec_def exec_from_literal del: exec_from.simps
        split: option.splits)


lemma index_of_Some:
  "index_of p u = Some k \<Longrightarrow>
     k + length p \<le> length u \<and> take (length p) (drop k u) = p \<and>
     (\<forall>j < k. \<not> prefix p (drop j u))"
proof (induction u arbitrary: k)
  case Nil
  then show ?case by (simp split: if_splits)
next
  case (Cons c u)
  show ?case
  proof (cases "prefix p (c # u)")
    case True
    with Cons.prems have k: "k = 0" by simp
    from True obtain v where v: "c # u = p @ v" by (auto simp: prefix_def)
    have "length p \<le> length (c # u)" "take (length p) (c # u) = p"
      unfolding v by simp_all
    with k show ?thesis by simp
  next
    case False
    with Cons.prems obtain k' where k': "index_of p u = Some k'" "k = Suc k'" by auto
    from Cons.IH [OF k'(1)] have
      ih: "k' + length p \<le> length u" "take (length p) (drop k' u) = p"
          "\<forall>j < k'. \<not> prefix p (drop j u)" by simp_all
    have "\<not> prefix p (drop j (c # u))" if "j < Suc k'" for j
      using that False ih(3) by (cases j) simp_all
    with ih(1,2) k'(2) show ?thesis by simp
  qed
qed


subsection \<open>A replacement without a dollar sign is inserted as it is\<close>

lemma get_substitution_plain:
  "CHR ''$'' \<notin> set t \<Longrightarrow> get_substitution m pre post t = t"
  by (induction m pre post t rule: get_substitution.induct) auto

lemma replace_literal:
  "CHR ''$'' \<notin> set t \<Longrightarrow>
   replace str p t =
     (case index_of p str of None \<Rightarrow> str | Some k \<Rightarrow> take k str @ t @ drop (k + length p) str)"
  by (simp add: replace_def get_substitution_plain split: option.splits)

lemma plain_Nil: "plain []"
  by (simp add: plain_def)

lemma index_of_Nil: "index_of [] str = Some 0"
  by (cases str) simp_all

lemma search_empty: "search str [] = Inr 0"
  by (simp add: search_plain plain_Nil index_of_Nil)

lemma replace_empty: "replace str [] t = get_substitution [] [] str t @ str"
  by (simp add: replace_def index_of_Nil)

section \<open>The engine: halting and history\<close>

lemma scan_none:
  "scan sts r = Inr (r', None) \<Longrightarrow> r' = stop r \<and> (\<forall>st \<in> set sts. unmatched (rcontext r) st)"
  by (induction sts) (auto simp: unmatched_def Let_def split: sum.splits if_splits)

lemma scan_some:
  "scan sts r = Inr (r', Some st) \<Longrightarrow>
     \<exists>pre post. sts = pre @ st # post \<and> (\<forall>x \<in> set pre. unmatched (rcontext r) x) \<and>
       (\<exists>i. search (rcontext r) (lhs st) = Inr i \<and> i > - 1) \<and> r' = applied_to st r"
proof (induction sts)
  case Nil
  then show ?case by simp
next
  case (Cons a sts)
  show ?case
  proof (cases "search (rcontext r) (lhs a)")
    case (Inl e)
    with Cons.prems show ?thesis by simp
  next
    case (Inr i)
    show ?thesis
    proof (cases "i > - 1")
      case True
      with Inr Cons.prems have "st = a" and "r' = applied_to a r"
        by (auto simp: applied_to_def Let_def split: if_splits)
      with Inr True show ?thesis by (intro exI[of _ "[]"] exI[of _ sts]) simp
    next
      case False
      with Inr Cons.prems have "scan sts r = Inr (r', Some st)" by simp
      from Cons.IH[OF this] obtain pre post where
        "sts = pre @ st # post" "\<forall>x \<in> set pre. unmatched (rcontext r) x"
        "\<exists>i. search (rcontext r) (lhs st) = Inr i \<and> i > - 1" "r' = applied_to st r"
        by blast
      with Inr False show ?thesis
        by (intro exI[of _ "a # pre"] exI[of _ post]) (simp add: unmatched_def)
    qed
  qed
qed

lemma scan_throw:
  "scan sts r = Inl (e, r') \<Longrightarrow> r' = r \<and> (\<exists>st \<in> set sts. search (rcontext r) (lhs st) = Inl e)"
  by (induction sts) (auto simp: Let_def split: sum.splits if_splits)

lemma scan_unmatched:
  "\<forall>st \<in> set sts. unmatched (rcontext r) st \<Longrightarrow> scan sts r = Inr (stop r, None)"
  by (induction sts) (auto simp: unmatched_def)

lemma entered_simps [simp]:
  "rcontext (entered r) = rcontext r"
  "algorithm (entered r) = algorithm r"
  "rdone (entered r) = rdone r"
  "steps (entered r) = (if steps r = [] then [(rcontext r, None)] else steps r)"
  by (simp_all add: entered_def)

lemma step_running: "\<not> rdone r \<Longrightarrow> step r = scan (statements (algorithm r)) (entered r)"
  by (simp add: step_def entered_def getStatements_def Let_def)







lemma step_fired:
  assumes "step r = Inr (r', Some st)"
  shows "\<not> rdone r \<and> r' = applied_to st (entered r)"
proof -
  have nd: "\<not> rdone r" using assms by (auto simp: step_def)
  with assms have "scan (statements (algorithm r)) (entered r) = Inr (r', Some st)"
    by (simp add: step_running)
  from scan_some[OF this] nd show ?thesis by blast
qed

lemma step_idle:
  assumes "step r = Inr (r', None)"
  shows "(rdone r \<and> r' = r) \<or> (\<not> rdone r \<and> r' = stop (entered r))"
proof (cases "rdone r")
  case True
  with assms show ?thesis by (simp add: step_def)
next
  case False
  with assms have "scan (statements (algorithm r)) (entered r) = Inr (r', None)"
    by (simp add: step_running)
  from scan_none[OF this] False show ?thesis by simp
qed

lemma step_threw:
  assumes "step r = Inl (e, r')"
  shows "\<not> rdone r \<and> r' = entered r"
proof -
  have nd: "\<not> rdone r" using assms by (auto simp: step_def)
  with assms have "scan (statements (algorithm r)) (entered r) = Inl (e, r')"
    by (simp add: step_running)
  from scan_throw[OF this] nd show ?thesis by blast
qed

lemma steps_applied_to [simp]:
  "steps (applied_to st r) = steps r @ [(replace (rcontext r) (lhs st) (rhs st), Some st)]"
  "rcontext (applied_to st r) = replace (rcontext r) (lhs st) (rhs st)"
  by (simp_all add: applied_to_def stop_def Let_def)

lemma recorded_entered:
  assumes "recorded r0 n r"
  shows "length (steps (entered r)) = n + 1 \<and> hd (steps (entered r)) = (rcontext r0, None) \<and>
         fst (last (steps (entered r))) = rcontext r"
  using assms by (cases "steps r = []") (auto simp: recorded_def)

lemma drive_recorded:
  assumes "drive r0 n r" and "steps r0 = []" and "\<not> rdone r0"
  shows "recorded r0 n r"
  using assms
proof (induction rule: drive.induct)
  case (start r0)
  then show ?case by (simp add: recorded_def)
next
  case (fired r0 n r r' st)
  then have "recorded r0 n r" by simp
  from recorded_entered[OF this] step_fired[OF fired.hyps(2)] show ?case
    by (cases "steps (entered r)") (simp_all add: recorded_def)
next
  case (idle r0 n r r')
  then have "recorded r0 n r" by simp
  from recorded_entered[OF this] this step_idle[OF idle.hyps(2)] show ?case
    by (auto simp: recorded_def stop_def)
next
  case (threw r0 n r e r')
  then have "recorded r0 n r" by simp
  from recorded_entered[OF this] step_threw[OF threw.hyps(2)] show ?case
    by (simp add: recorded_def)
qed

text \<open>
  Claim C4. The first call of \<^verbatim>\<open>step\<close> on a new engine puts the record of the initial
  context, with no rule, at the head of the history. A call that applies a rule appends
  exactly one record, after that initial record if the history was empty. Hence an engine
  that is done after calls of \<^verbatim>\<open>step\<close> of which \<open>n\<close> applied a rule has \<open>n + 1\<close> records, the
  first the initial one and the last holding the final context.
\<close>

theorem history_growth:
  "(case step (Runner alg c) of
      Inl (e, r1) \<Rightarrow> steps r1 = [(c, None)]
    | Inr (r1, a) \<Rightarrow> steps r1 \<noteq> [] \<and> hd (steps r1) = (c, None)) \<and>
   (step r = Inr (r', Some st) \<longrightarrow>
      steps r' = (if steps r = [] then [(rcontext r, None)] else steps r) @ [(rcontext r', Some st)]) \<and>
   (drive (Runner alg c) n r \<and> rdone r \<longrightarrow>
      length (steps r) = n + 1 \<and> hd (steps r) = (c, None) \<and> fst (last (steps r)) = rcontext r)"
proof (intro conjI impI)
  show "case step (Runner alg c) of
      Inl (e, r1) \<Rightarrow> steps r1 = [(c, None)]
    | Inr (r1, a) \<Rightarrow> steps r1 \<noteq> [] \<and> hd (steps r1) = (c, None)"
  proof (cases "step (Runner alg c)")
    case (Inl x)
    obtain e r1 where "x = (e, r1)" by (cases x)
    with Inl step_threw[of "Runner alg c" e r1] show ?thesis by (simp add: Runner_def)
  next
    case (Inr y)
    obtain r1 a where y: "y = (r1, a)" by (cases y)
    show ?thesis
    proof (cases a)
      case None
      with Inr y step_idle[of "Runner alg c" r1] show ?thesis by (auto simp: Runner_def stop_def)
    next
      case (Some st)
      with Inr y step_fired[of "Runner alg c" r1 st] show ?thesis by (auto simp: Runner_def)
    qed
  qed
next
  assume "step r = Inr (r', Some st)"
  from step_fired[OF this] show
    "steps r' = (if steps r = [] then [(rcontext r, None)] else steps r) @ [(rcontext r', Some st)]"
    by simp
next
  assume a: "drive (Runner alg c) n r \<and> rdone r"
  then have "recorded (Runner alg c) n r"
    by (intro drive_recorded) (simp_all add: Runner_def)
  with a show "length (steps r) = n + 1" "hd (steps r) = (c, None)" "fst (last (steps r)) = rcontext r"
    by (auto simp: recorded_def Runner_def)
qed

theorem history_growth_witness:
  "drive (Runner \<lparr>statements = [\<lparr>lhs = ''a'', rhs = ''b'', closing = False\<rparr>]\<rparr> ''aa'') 2
     \<lparr>rcontext = ''bb'', algorithm = \<lparr>statements = [\<lparr>lhs = ''a'', rhs = ''b'', closing = False\<rparr>]\<rparr>,
      steps = [(''aa'', None), (''ba'', Some \<lparr>lhs = ''a'', rhs = ''b'', closing = False\<rparr>),
               (''bb'', Some \<lparr>lhs = ''a'', rhs = ''b'', closing = False\<rparr>)], rdone = True\<rparr> \<and>
   length [(''aa'', None), (''ba'', Some \<lparr>lhs = ''a'', rhs = ''b'', closing = False\<rparr>),
           (''bb'', Some \<lparr>lhs = ''a'', rhs = ''b'', closing = False\<rparr>)] = (2::nat) + 1"
proof -
  let ?st = "\<lparr>lhs = ''a'', rhs = ''b'', closing = False\<rparr>"
  let ?alg = "\<lparr>statements = [?st]\<rparr>"
  let ?r0 = "Runner ?alg ''aa''"
  let ?r1 = "\<lparr>rcontext = ''ba'', algorithm = ?alg,
              steps = [(''aa'', None), (''ba'', Some ?st)], rdone = False\<rparr>"
  let ?r2 = "\<lparr>rcontext = ''bb'', algorithm = ?alg,
              steps = [(''aa'', None), (''ba'', Some ?st), (''bb'', Some ?st)], rdone = False\<rparr>"
  let ?r3 = "\<lparr>rcontext = ''bb'', algorithm = ?alg,
              steps = [(''aa'', None), (''ba'', Some ?st), (''bb'', Some ?st)], rdone = True\<rparr>"
  have s1: "step ?r0 = Inr (?r1, Some ?st)" by code_simp
  have s2: "step ?r1 = Inr (?r2, Some ?st)" by code_simp
  have s3: "step ?r2 = Inr (?r3, None)" by code_simp
  have d1: "drive ?r0 (Suc 0) ?r1" by (rule drive.fired [OF drive.start s1])
  have d2: "drive ?r0 (Suc (Suc 0)) ?r2" by (rule drive.fired [OF d1 s2])
  have d3: "drive ?r0 (Suc (Suc 0)) ?r3" by (rule drive.idle [OF d2 s3])
  have d: "drive ?r0 2 ?r3" using d3 by (simp add: numeral_2_eq_2)
  from history_growth [where alg = ?alg and c = "''aa''" and r = ?r3 and n = 2] d
  have "length (steps ?r3) = 2 + 1" by simp
  with d show ?thesis by simp
qed

section \<open>The engine: which rule is applied, and how\<close>

text \<open>
  On rule sets whose patterns are all plain, \<^verbatim>\<open>step\<close> never ends with an error and applies
  the first rule whose pattern occurs in the context as a substring. A rule with the empty
  pattern is applicable to every context, and the expansion of its replacement is put in
  front of the context; when it is the first rule and is not closing, \<^verbatim>\<open>run\<close> never returns.
\<close>

lemma step_empty_pattern:
  assumes "\<not> rdone r" and "statements (algorithm r) = st # rest" and "lhs st = []"
  shows "step r = Inr (applied_to st (entered r), Some st)"
    and "rcontext (applied_to st (entered r)) = get_substitution [] [] (rcontext r) (rhs st) @ rcontext r"
    and "rdone (applied_to st (entered r)) = closing st"
    and "algorithm (applied_to st (entered r)) = algorithm r"
proof -
  show "step r = Inr (applied_to st (entered r), Some st)"
    using assms by (simp add: step_running search_empty applied_to_def Let_def)
  show "rcontext (applied_to st (entered r)) = get_substitution [] [] (rcontext r) (rhs st) @ rcontext r"
    using assms(3) by (simp add: replace_empty)
  show "rdone (applied_to st (entered r)) = closing st"
    using assms(1) by (simp add: applied_to_def stop_def Let_def)
  show "algorithm (applied_to st (entered r)) = algorithm r"
    by (simp add: applied_to_def stop_def Let_def)
qed

lemma drain_diverges_aux:
  assumes "drain r = Some y"
  shows "\<not> (\<not> rdone r \<and>
            (\<exists>st rest. statements (algorithm r) = st # rest \<and> lhs st = [] \<and> \<not> closing st))"
proof (rule drain.raw_induct [where P = "\<lambda>r y. \<not> (\<not> rdone r \<and>
            (\<exists>st rest. statements (algorithm r) = st # rest \<and> lhs st = [] \<and> \<not> closing st))",
          OF _ assms])
  fix drain' :: "runner \<Rightarrow> ((error \<times> runner) + runner) option" and self y'
  assume IH: "\<And>x y. drain' x = Some y \<Longrightarrow> \<not> (\<not> rdone x \<and>
            (\<exists>st rest. statements (algorithm x) = st # rest \<and> lhs st = [] \<and> \<not> closing st))"
    and body: "(if rdone self then Some (Inr self)
                else case step self of Inl e \<Rightarrow> Some (Inl e)
                     | Inr (self', applied) \<Rightarrow> drain' self') = Some y'"
  show "\<not> (\<not> rdone self \<and>
            (\<exists>st rest. statements (algorithm self) = st # rest \<and> lhs st = [] \<and> \<not> closing st))"
  proof
    assume "\<not> rdone self \<and>
      (\<exists>st rest. statements (algorithm self) = st # rest \<and> lhs st = [] \<and> \<not> closing st)"
    then obtain st rest where
      st: "\<not> rdone self" "statements (algorithm self) = st # rest" "lhs st = []" "\<not> closing st"
      by blast
    let ?r' = "applied_to st (entered self)"
    note s = step_empty_pattern [OF st(1-3)]
    from body st(1) s(1) have "drain' ?r' = Some y'" by simp
    from IH [OF this] s(3,4) st show False by simp
  qed
qed

lemma drain_diverges:
  assumes "\<not> rdone r" and "statements (algorithm r) = st # rest" and "lhs st = []"
    and "\<not> closing st"
  shows "drain r = None" and "run r = None"
proof -
  show "drain r = None"
    using drain_diverges_aux [of r] assms by (cases "drain r") auto
  then show "run r = None" using assms(1) by (simp add: run_def)
qed

text \<open>
  Claim C1 fails on the code. The rules \<^verbatim>\<open>a+b -> x\<close> and \<^verbatim>\<open>b -> y\<close> both compile, and the
  patterns of both occur in the context \<^verbatim>\<open>a+b\<close>. \<^verbatim>\<open>step\<close> tests the first rule with
  \<^verbatim>\<open>search\<close>, which reads \<^verbatim>\<open>a+b\<close> as the pattern "one or more \<^verbatim>\<open>a\<close>, then \<^verbatim>\<open>b\<close>" and finds
  nothing; the second rule is applied.
\<close>

theorem step_skips_first_rule:
  "compile ''a+b -> x'' = Inr \<lparr>lhs = ''a+b'', rhs = ''x'', closing = False\<rparr> \<and>
   compile ''b -> y'' = Inr \<lparr>lhs = ''b'', rhs = ''y'', closing = False\<rparr> \<and>
   sublist ''a+b'' ''a+b'' \<and> sublist ''b'' ''a+b'' \<and>
   search ''a+b'' ''a+b'' = Inr (- 1) \<and>
   step (Runner \<lparr>statements = [\<lparr>lhs = ''a+b'', rhs = ''x'', closing = False\<rparr>,
                                \<lparr>lhs = ''b'', rhs = ''y'', closing = False\<rparr>]\<rparr> ''a+b'')
     = Inr (\<lparr>rcontext = ''a+y'',
             algorithm = \<lparr>statements = [\<lparr>lhs = ''a+b'', rhs = ''x'', closing = False\<rparr>,
                                       \<lparr>lhs = ''b'', rhs = ''y'', closing = False\<rparr>]\<rparr>,
             steps = [(''a+b'', None), (''a+y'', Some \<lparr>lhs = ''b'', rhs = ''y'', closing = False\<rparr>)],
             rdone = False\<rparr>,
            Some \<lparr>lhs = ''b'', rhs = ''y'', closing = False\<rparr>)"
proof -
  have "sublist ''b'' ''a+b''" by (rule sublist_appendI [of _ "''a+''" "[]", simplified])
  moreover have "compile ''a+b -> x'' = Inr \<lparr>lhs = ''a+b'', rhs = ''x'', closing = False\<rparr>"
    by code_simp
  moreover have "compile ''b -> y'' = Inr \<lparr>lhs = ''b'', rhs = ''y'', closing = False\<rparr>"
    by code_simp
  moreover have "search ''a+b'' ''a+b'' = Inr (- 1)" by code_simp
  moreover have "step (Runner \<lparr>statements = [\<lparr>lhs = ''a+b'', rhs = ''x'', closing = False\<rparr>,
                                \<lparr>lhs = ''b'', rhs = ''y'', closing = False\<rparr>]\<rparr> ''a+b'')
     = Inr (\<lparr>rcontext = ''a+y'',
             algorithm = \<lparr>statements = [\<lparr>lhs = ''a+b'', rhs = ''x'', closing = False\<rparr>,
                                       \<lparr>lhs = ''b'', rhs = ''y'', closing = False\<rparr>]\<rparr>,
             steps = [(''a+b'', None), (''a+y'', Some \<lparr>lhs = ''b'', rhs = ''y'', closing = False\<rparr>)],
             rdone = False\<rparr>,
            Some \<lparr>lhs = ''b'', rhs = ''y'', closing = False\<rparr>)"
    by code_simp
  ultimately show ?thesis by simp
qed

text \<open>
  Claim C2 fails on the code. The rule \<^verbatim>\<open>a -> $$\<close> compiles, with the replacement \<^verbatim>\<open>$$\<close>.
  Applied to the context \<^verbatim>\<open>a\<close>, \<^verbatim>\<open>replace\<close> reads the replacement as a template, in which
  \<^verbatim>\<open>$$\<close> stands for one dollar sign: the new context is \<^verbatim>\<open>$\<close>, not \<^verbatim>\<open>$$\<close>.
\<close>

theorem step_expands_dollar:
  "compile ''a -> $$'' = Inr \<lparr>lhs = ''a'', rhs = ''$$'', closing = False\<rparr> \<and>
   step (Runner \<lparr>statements = [\<lparr>lhs = ''a'', rhs = ''$$'', closing = False\<rparr>]\<rparr> ''a'')
     = Inr (\<lparr>rcontext = ''$'',
             algorithm = \<lparr>statements = [\<lparr>lhs = ''a'', rhs = ''$$'', closing = False\<rparr>]\<rparr>,
             steps = [(''a'', None), (''$'', Some \<lparr>lhs = ''a'', rhs = ''$$'', closing = False\<rparr>)],
             rdone = False\<rparr>,
            Some \<lparr>lhs = ''a'', rhs = ''$$'', closing = False\<rparr>)"
  by code_simp

text \<open>
  Claim C10 fails on the code for the same reason as claim C2. The rule \<^verbatim>\<open>! -> $$\<close> has the
  empty pattern; on the context \<^verbatim>\<open>ab\<close> it is applied, and the new context is \<^verbatim>\<open>$ab\<close>: the
  expansion of the template in front of the old context, not the replacement \<^verbatim>\<open>$$\<close>.
\<close>

theorem empty_pattern_expands_dollar:
  "compile ''! -> $$'' = Inr \<lparr>lhs = [], rhs = ''$$'', closing = False\<rparr> \<and>
   step (Runner \<lparr>statements = [\<lparr>lhs = [], rhs = ''$$'', closing = False\<rparr>]\<rparr> ''ab'')
     = Inr (\<lparr>rcontext = ''$ab'',
             algorithm = \<lparr>statements = [\<lparr>lhs = [], rhs = ''$$'', closing = False\<rparr>]\<rparr>,
             steps = [(''ab'', None), (''$ab'', Some \<lparr>lhs = [], rhs = ''$$'', closing = False\<rparr>)],
             rdone = False\<rparr>,
            Some \<lparr>lhs = [], rhs = ''$$'', closing = False\<rparr>)"
  by code_simp

section \<open>The rule set\<close>

text \<open>
  What the two operations do at every position. The rendering of a rule always holds the
  arrow, which is why the rule compared with a number is \<^verbatim>\<open>NaN\<close>.
\<close>

lemma toString_has_arrow: "CHR ''>'' \<in> set (toString st)"
  by (simp add: toString_def)

lemma slice_prefix: "slice xs 0 (Some p) = take (clamp (length xs) p) xs"
  by (simp add: slice_def clamp_def Let_def)

lemma slice_suffix: "slice xs p None = drop (clamp (length xs) p) xs"
  by (auto simp: slice_def clamp_def Let_def)

lemma addStatement_omitted:
  "addStatement st None alg = alg\<lparr>statements := statements alg @ [st]\<rparr>"
  by (simp add: addStatement_def)

lemma addStatement_position:
  "addStatement st (Some p) alg =
     alg\<lparr>statements := take (clamp (length (statements alg)) p) (statements alg) @ [st]
                         @ drop (clamp (length (statements alg)) p) (statements alg)\<rparr>"
  by (simp add: addStatement_def ToNumber_def slice_prefix slice_suffix)

lemma addStatement_cases:
  "int (length (statements alg)) \<le> p \<Longrightarrow>
     statements (addStatement st (Some p) alg) = statements alg @ [st]"
  "0 \<le> p \<Longrightarrow> p \<le> int (length (statements alg)) \<Longrightarrow>
     statements (addStatement st (Some p) alg)
       = take (nat p) (statements alg) @ [st] @ drop (nat p) (statements alg)"
  "p \<le> - int (length (statements alg)) \<Longrightarrow>
     statements (addStatement st (Some p) alg) = st # statements alg"
  "p < 0 \<Longrightarrow> - int (length (statements alg)) < p \<Longrightarrow>
     statements (addStatement st (Some p) alg)
       = take (nat (int (length (statements alg)) + p)) (statements alg) @ [st]
         @ drop (nat (int (length (statements alg)) + p)) (statements alg)"
  by (auto simp: addStatement_position clamp_def)

lemma removeStatement_last:
  assumes "position = None \<or> (\<exists>p. position = Some p \<and> int (length (statements alg)) - 1 \<le> p)"
  shows "removeStatement position alg =
           (if statements alg = [] then None else Some (last (statements alg)),
            alg\<lparr>statements := butlast (statements alg)\<rparr>)"
  using assms by (auto simp: removeStatement_def pop_def)

lemma removeStatement_first:
  assumes "p < 0" and "p < int (length (statements alg)) - 1"
  shows "removeStatement (Some p) alg =
           (if statements alg = [] then None else Some (hd (statements alg)),
            alg\<lparr>statements := tl (statements alg)\<rparr>)"
  using assms by (cases "statements alg") (auto simp: removeStatement_def shift_def)

lemma removeStatement_inner:
  assumes "0 \<le> p" and "p < int (length (statements alg)) - 1"
  shows "removeStatement (Some p) alg =
           (Some (statements alg ! nat p),
            alg\<lparr>statements := take (nat p) (statements alg) @ take (nat p + 1) (statements alg)\<rparr>)"
proof -
  have "clamp (length (statements alg)) p = nat p" "clamp (length (statements alg)) (p + 1) = nat p + 1"
    using assms by (auto simp: clamp_def)
  with assms show ?thesis
    by (simp add: removeStatement_def element_def slice_prefix)
qed

text \<open>
  Claim C8 fails on the code. \<^verbatim>\<open>addStatement\<close> with the position \<open>-1\<close> on a rule set of two
  rules puts the new rule between them, not at the front: the guard compares the rule, not
  the position, so a negative position reaches \<^verbatim>\<open>slice\<close>, which counts it from the end.
\<close>

theorem addStatement_negative_position:
  "addStatement \<lparr>lhs = ''c'', rhs = ''z'', closing = False\<rparr> (Some (- 1))
     \<lparr>statements = [\<lparr>lhs = ''a'', rhs = ''x'', closing = False\<rparr>,
                    \<lparr>lhs = ''b'', rhs = ''y'', closing = False\<rparr>]\<rparr>
   = \<lparr>statements = [\<lparr>lhs = ''a'', rhs = ''x'', closing = False\<rparr>,
                    \<lparr>lhs = ''c'', rhs = ''z'', closing = False\<rparr>,
                    \<lparr>lhs = ''b'', rhs = ''y'', closing = False\<rparr>]\<rparr>"
  by code_simp

text \<open>
  Claim C9 fails on the code. \<^verbatim>\<open>removeStatement(0)\<close> on a rule set of three rules returns
  the first rule and leaves the rule set holding that same rule alone: the second slice
  starts at \<open>0\<close> where it should start after the position.
\<close>

theorem removeStatement_inner_position:
  "removeStatement (Some 0)
     \<lparr>statements = [\<lparr>lhs = ''a'', rhs = ''x'', closing = False\<rparr>,
                    \<lparr>lhs = ''b'', rhs = ''y'', closing = False\<rparr>,
                    \<lparr>lhs = ''c'', rhs = ''z'', closing = False\<rparr>]\<rparr>
   = (Some \<lparr>lhs = ''a'', rhs = ''x'', closing = False\<rparr>,
      \<lparr>statements = [\<lparr>lhs = ''a'', rhs = ''x'', closing = False\<rparr>]\<rparr>)"
  by code_simp

end
